theory Spec2Isabelle
  imports Main "HOL-Library.Sublist"
begin

section \<open>Error reports and undefined behaviour\<close>

text \<open>
  Modelled from the spec: \<^verbatim>\<open>opentimelineio/errorStatus.h\<close> is not among the sources.
  The code under verification builds an error report from an outcome and a message
  (\<^verbatim>\<open>ErrorStatus(ErrorStatus::INTERNAL_ERROR, "...")\<close>) and asks \<^verbatim>\<open>is_error(error_status)\<close>
  of a possibly null pointer. An \<^verbatim>\<open>ErrorStatus*\<close> is an \<open>ErrorStatus option\<close>: \<open>None\<close> is
  the null pointer, \<open>Some s\<close> a handle whose current content is \<open>s\<close>. The enumerators
  other than the two the sources mention are kept by their number.
\<close>

datatype Outcome = OK | INTERNAL_ERROR | OTHER_OUTCOME nat

record ErrorStatus =
  outcome :: Outcome
  details :: string

definition is_error :: "ErrorStatus option \<Rightarrow> bool" where
  "is_error error_status =
     (case error_status of None \<Rightarrow> False | Some s \<Rightarrow> outcome s \<noteq> OK)"

text \<open>\<^verbatim>\<open>if (error_status) { *error_status = ErrorStatus(k, msg); }\<close>\<close>

definition report :: "ErrorStatus option \<Rightarrow> Outcome \<Rightarrow> string \<Rightarrow> ErrorStatus option" where
  "report error_status k msg =
     (case error_status of None \<Rightarrow> None
      | Some _ \<Rightarrow> Some \<lparr>outcome = k, details = msg\<rparr>)"

text \<open>
  The ways in which the bisection functions leave defined behaviour: reading
  \<^verbatim>\<open>*lower_search_bound\<close> of an empty \<^verbatim>\<open>std::optional\<close>, \<^verbatim>\<open>seq[i]\<close> with \<open>i\<close> outside the
  vector, and a signed 64 bit operation whose result does not fit. They are values of the model.
\<close>

datatype fault = EmptyOptionalAccess | VectorOutOfRange | SignedOverflow

text \<open>\<^verbatim>\<open>seq[i]\<close> for an \<^verbatim>\<open>int64_t\<close> index \<open>i\<close> on a \<^verbatim>\<open>std::vector\<close>.\<close>

definition seq_at :: "'a list \<Rightarrow> int \<Rightarrow> 'a option" where
  "seq_at seq i = (if 0 \<le> i \<and> i < int (length seq) then Some (seq ! nat i) else None)"

section \<open>The reference bisection, \<^verbatim>\<open>bisect_right_original\<close>\<close>

text \<open>
  Indices are \<^verbatim>\<open>int64_t\<close> in the source and \<open>int\<close> here. In the four functions a lower
  bound that reaches a loop is not negative, so the one operation on indices that can overflow
  while every index it leads to is still inside the vector is the difference
  \<^verbatim>\<open>right - left\<close> in the loop test of \<^verbatim>\<open>bisect_right_optimized_v3\<close>, evaluated also when
  \<^verbatim>\<open>right\<close> is negative; it is a fault there. (The sum \<^verbatim>\<open>lower + upper\<close> of the reference
  overflows only for an upper bound beyond \<open>2 ^ 62\<close>, where the midpoint is outside every
  vector.)

  The reference loop computes its midpoint in double precision:
  \<^verbatim>\<open>static_cast<int64_t>(std::floor((lower + upper) / 2.0))\<close>. The conversion of the integer sum to \<^verbatim>\<open>double\<close> rounds to the nearest value with a
  53 bit significand, ties to even; halving a double is exact, and so are the floor and the
  conversion back. \<open>round_to_double\<close> is that conversion on integers.
\<close>

function bit_width :: "int \<Rightarrow> nat" where
  "bit_width a = (if a \<le> 0 then 0 else Suc (bit_width (a div 2)))"
  by pat_completeness auto
termination
  by (relation "measure nat") auto

declare bit_width.simps [simp del]

definition round_to_double :: "int \<Rightarrow> int" where
  "round_to_double x =
     (let a = \<bar>x\<bar>; e = bit_width a - 53; u = 2 ^ e; q = a div u; r = a mod u;
          m = (if 2 * r > u \<or> (2 * r = u \<and> odd q) then q + 1 else q)
      in sgn x * (m * u))"

definition midpoint_original :: "int \<Rightarrow> int \<Rightarrow> int" where
  "midpoint_original lower upper = round_to_double (lower + upper) div 2"

text \<open>
  The \<^verbatim>\<open>while\<close> loop of lines 38-48. Its progress depends on the rounded midpoint, so it is
  a partial function: \<open>None\<close> is a loop that does not return.
\<close>

partial_function (option) original_loop ::
  "'a list \<Rightarrow> 't::linorder \<Rightarrow> ('a \<Rightarrow> 't) \<Rightarrow> int \<Rightarrow> int \<Rightarrow> (fault + int) option"
where
  "original_loop seq tgt key_func lower upper =
     (if lower < upper then
        (let midpoint_index = midpoint_original lower upper in
         case seq_at seq midpoint_index of
           None \<Rightarrow> Some (Inl VectorOutOfRange)
         | Some c \<Rightarrow>
             if tgt < key_func c
             then original_loop seq tgt key_func lower midpoint_index
             else original_loop seq tgt key_func (midpoint_index + 1) upper)
      else Some (Inr lower))"

definition bisect_right_original ::
  "'a list \<Rightarrow> 't::linorder \<Rightarrow> ('a \<Rightarrow> 't) \<Rightarrow> ErrorStatus option \<Rightarrow> int option \<Rightarrow> int option
     \<Rightarrow> (fault + int \<times> ErrorStatus option) option"
where
  "bisect_right_original seq tgt key_func error_status lower_search_bound upper_search_bound =
     (case lower_search_bound of
        None \<Rightarrow> Some (Inl EmptyOptionalAccess)
      | Some lower \<Rightarrow>
          if lower < 0
          then Some (Inr (0, report error_status INTERNAL_ERROR
                                ''lower_search_bound must be non-negative''))
          else
            (let upper = (case upper_search_bound of None \<Rightarrow> int (length seq) | Some u \<Rightarrow> u)
             in case original_loop seq tgt key_func lower upper of
                  None \<Rightarrow> None
                | Some (Inl f) \<Rightarrow> Some (Inl f)
                | Some (Inr i) \<Rightarrow> Some (Inr (i, error_status))))"

section \<open>The optimized variants\<close>

text \<open>
  The loop of \<^verbatim>\<open>bisect_right_optimized_v2\<close> (lines 78-85), which
  \<^verbatim>\<open>bisect_right_optimized_v3\<close> repeats as its final loop (lines 141-146). A \<^verbatim>\<open>bool\<close>
  multiplied into an \<^verbatim>\<open>int64_t\<close> is \<open>of_bool\<close>; \<^verbatim>\<open>>> 1\<close> is \<open>drop_bit 1\<close>.
\<close>

function branchless_loop ::
  "'a list \<Rightarrow> 't::linorder \<Rightarrow> ('a \<Rightarrow> 't) \<Rightarrow> int \<Rightarrow> int \<Rightarrow> fault + int"
where
  "branchless_loop seq target_val key_func left right =
     (if left < right then
        (let mid = left + drop_bit 1 (right - left) in
         case seq_at seq mid of
           None \<Rightarrow> Inl VectorOutOfRange
         | Some c \<Rightarrow>
             (let mid_val = key_func c in
              branchless_loop seq target_val key_func
                (left + of_bool (mid_val \<le> target_val) * (mid + 1 - left))
                (right - of_bool (mid_val > target_val) * (right - mid))))
      else Inr left)"
  by pat_completeness auto
termination
  by (relation "measure (\<lambda>(seq, target_val, key_func, left, right). nat (right - left))")
     (auto simp: drop_bit_eq_div)

declare branchless_loop.simps [simp del]

definition bisect_right_optimized_v2 ::
  "'a list \<Rightarrow> 't::linorder \<Rightarrow> ('a \<Rightarrow> 't) \<Rightarrow> ErrorStatus option \<Rightarrow> int option \<Rightarrow> int option
     \<Rightarrow> fault + int \<times> ErrorStatus option"
where
  "bisect_right_optimized_v2 seq tgt key_func error_status lower_search_bound upper_search_bound =
     (case lower_search_bound of
        None \<Rightarrow> Inl EmptyOptionalAccess
      | Some lower \<Rightarrow>
          if lower < 0
          then Inr (0, report error_status INTERNAL_ERROR
                          ''lower_search_bound must be non-negative'')
          else
            (let left = lower;
                 right = (case upper_search_bound of None \<Rightarrow> int (length seq) | Some u \<Rightarrow> u)
             in case branchless_loop seq tgt key_func left right of
                  Inl f \<Rightarrow> Inl f
                | Inr i \<Rightarrow> Inr (i, error_status)))"

text \<open>
  The unrolled loop of \<^verbatim>\<open>bisect_right_optimized_v3\<close> (lines 115-138), then its final loop.
  \<^verbatim>\<open>INT64_MIN\<close> is \<open>- (2 ^ 63)\<close>.
\<close>

function unrolled_loop ::
  "'a list \<Rightarrow> 't::linorder \<Rightarrow> ('a \<Rightarrow> 't) \<Rightarrow> int \<Rightarrow> int \<Rightarrow> fault + int"
where
  "unrolled_loop seq target_val key_func left right =
     (if right - left < - (2 ^ 63) then Inl SignedOverflow
      else if right - left > 4 then
        (let range = right - left;
             mid1 = left + drop_bit 2 range;
             mid2 = left + drop_bit 1 range;
             mid3 = right - drop_bit 2 range
         in case (seq_at seq mid1, seq_at seq mid2, seq_at seq mid3) of
              (Some c1, Some c2, Some c3) \<Rightarrow>
                (let val1 = key_func c1; val2 = key_func c2; val3 = key_func c3 in
                 if target_val < val1 then unrolled_loop seq target_val key_func left mid1
                 else if target_val < val2
                   then unrolled_loop seq target_val key_func (mid1 + 1) mid2
                 else if target_val < val3
                   then unrolled_loop seq target_val key_func (mid2 + 1) mid3
                 else unrolled_loop seq target_val key_func (mid3 + 1) right)
            | _ \<Rightarrow> Inl VectorOutOfRange)
      else branchless_loop seq target_val key_func left right)"
  by pat_completeness auto
termination
  by (relation "measure (\<lambda>(seq, target_val, key_func, left, right). nat (right - left))")
     (auto simp: drop_bit_eq_div)

declare unrolled_loop.simps [simp del]

definition bisect_right_optimized_v3 ::
  "'a list \<Rightarrow> 't::linorder \<Rightarrow> ('a \<Rightarrow> 't) \<Rightarrow> ErrorStatus option \<Rightarrow> int option \<Rightarrow> int option
     \<Rightarrow> fault + int \<times> ErrorStatus option"
where
  "bisect_right_optimized_v3 seq tgt key_func error_status lower_search_bound upper_search_bound =
     (case lower_search_bound of
        None \<Rightarrow> Inl EmptyOptionalAccess
      | Some lower \<Rightarrow>
          if lower < 0
          then Inr (0, report error_status INTERNAL_ERROR
                          ''lower_search_bound must be non-negative'')
          else
            (let left = lower;
                 right = (case upper_search_bound of None \<Rightarrow> int (length seq) | Some u \<Rightarrow> u)
             in case unrolled_loop seq tgt key_func left right of
                  Inl f \<Rightarrow> Inl f
                | Inr i \<Rightarrow> Inr (i, error_status)))"

text \<open>
  The loop of \<^verbatim>\<open>bisect_right_optimized_v4\<close> (lines 179-194). \<^verbatim>\<open>ELEMENTS_PER_CACHE_LINE\<close> is
  \<^verbatim>\<open>64 / sizeof(Retainer<Composable>)\<close>, whose declaration is not among the sources: it is a
  parameter. The prefetch itself changes nothing, but \<^verbatim>\<open>&seq[i]\<close> indexes the vector, so the
  two prefetched indices must lie inside it. Inside the loop all operands of \<^verbatim>\<open>/ 2\<close> and of
  the comparison with the unsigned constant are non-negative.
\<close>

function prefetch_loop ::
  "nat \<Rightarrow> 'a list \<Rightarrow> 't::linorder \<Rightarrow> ('a \<Rightarrow> 't) \<Rightarrow> int \<Rightarrow> int \<Rightarrow> fault + int"
where
  "prefetch_loop ELEMENTS_PER_CACHE_LINE seq target_val key_func left right =
     (if left < right then
        (let mid = left + drop_bit 1 (right - left);
             next_mid_lower = mid - (mid - left) div 2;
             next_mid_upper = mid + (right - mid) div 2
         in if right - left > int ELEMENTS_PER_CACHE_LINE
               \<and> (seq_at seq next_mid_lower = None \<or> seq_at seq next_mid_upper = None)
            then Inl VectorOutOfRange
            else
              case seq_at seq mid of
                None \<Rightarrow> Inl VectorOutOfRange
              | Some c \<Rightarrow>
                  (let mid_val = key_func c; is_less = (mid_val \<le> target_val) in
                   prefetch_loop ELEMENTS_PER_CACHE_LINE seq target_val key_func
                     (left + of_bool is_less * (mid + 1 - left))
                     (right - of_bool (\<not> is_less) * (right - mid))))
      else Inr left)"
  by pat_completeness auto
termination
  by (relation "measure (\<lambda>(e, seq, target_val, key_func, left, right). nat (right - left))")
     (auto simp: drop_bit_eq_div)

declare prefetch_loop.simps [simp del]

definition bisect_right_optimized_v4 ::
  "nat \<Rightarrow> 'a list \<Rightarrow> 't::linorder \<Rightarrow> ('a \<Rightarrow> 't) \<Rightarrow> ErrorStatus option \<Rightarrow> int option
     \<Rightarrow> int option \<Rightarrow> fault + int \<times> ErrorStatus option"
where
  "bisect_right_optimized_v4 ELEMENTS_PER_CACHE_LINE seq tgt key_func error_status
       lower_search_bound upper_search_bound =
     (case lower_search_bound of
        None \<Rightarrow> Inl EmptyOptionalAccess
      | Some lower \<Rightarrow>
          if lower < 0
          then Inr (0, report error_status INTERNAL_ERROR
                          ''lower_search_bound must be non-negative'')
          else
            (let left = lower;
                 right = (case upper_search_bound of None \<Rightarrow> int (length seq) | Some u \<Rightarrow> u)
             in case prefetch_loop ELEMENTS_PER_CACHE_LINE seq tgt key_func left right of
                  Inl f \<Rightarrow> Inl f
                | Inr i \<Rightarrow> Inr (i, error_status)))"

section \<open>What the bisection contract says\<close>

text \<open>
  The upper bound the loops start from: \<^verbatim>\<open>upper_search_bound\<close> when it is given,
  \<^verbatim>\<open>seq.size()\<close> otherwise.
\<close>

definition effective_upper :: "'a list \<Rightarrow> int option \<Rightarrow> int" where
  "effective_upper seq upper_search_bound =
     (case upper_search_bound of None \<Rightarrow> int (length seq) | Some u \<Rightarrow> u)"

text \<open>
  The precondition of the contract: the key images over the index range \<open>[lower, upper)\<close>
  are non-decreasing.
\<close>

definition key_sorted :: "('a \<Rightarrow> 't::linorder) \<Rightarrow> 'a list \<Rightarrow> int \<Rightarrow> int \<Rightarrow> bool" where
  "key_sorted key_func seq lower upper =
     (\<forall>i\<in>{lower..<upper}. \<forall>j\<in>{i..<upper}. key_func (seq ! nat i) \<le> key_func (seq ! nat j))"

text \<open>
  \<open>p\<close> splits \<open>[lower, upper)\<close> into the keys that are at most \<open>tgt\<close> and the keys above it.
\<close>

definition insertion_point ::
  "('a \<Rightarrow> 't::linorder) \<Rightarrow> 'a list \<Rightarrow> 't \<Rightarrow> int \<Rightarrow> int \<Rightarrow> int \<Rightarrow> bool" where
  "insertion_point key_func seq tgt lower upper p =
     (lower \<le> p \<and> p \<le> upper
      \<and> (\<forall>i\<in>{lower..<p}. key_func (seq ! nat i) \<le> tgt)
      \<and> (\<forall>i\<in>{p..<upper}. tgt < key_func (seq ! nat i)))"

text \<open>
  The result of \<^verbatim>\<open>bisect_right\<close> in the words of the specification: the smallest index
  \<open>p\<close> of \<open>[lower, upper]\<close> such that every element at an index from \<open>p\<close> on, inside the
  range, has a key above \<open>tgt\<close>.
\<close>

definition spec_bisect_right_index ::
  "('a \<Rightarrow> 't::linorder) \<Rightarrow> 'a list \<Rightarrow> 't \<Rightarrow> int \<Rightarrow> int \<Rightarrow> int \<Rightarrow> bool" where
  "spec_bisect_right_index key_func seq tgt lower upper p =
     (p \<in> {lower..upper}
      \<and> (\<forall>idx\<in>{p..<upper}. tgt < key_func (seq ! nat idx))
      \<and> (\<forall>i\<in>{lower..upper}.
            (\<forall>idx\<in>{i..<upper}. tgt < key_func (seq ! nat idx)) \<longrightarrow> p \<le> i))"

text \<open>
  Two sequences of one length that hold the same elements at the indices of \<open>[lower, upper)\<close>.
\<close>

definition agree_between :: "'a list \<Rightarrow> 'a list \<Rightarrow> int \<Rightarrow> int \<Rightarrow> bool" where
  "agree_between seq seq' lower upper =
     (length seq' = length seq \<and> (\<forall>i\<in>{lower..<upper}. seq' ! nat i = seq ! nat i))"

section \<open>Composition trees and \<^verbatim>\<open>Composition::find_children\<close>\<close>

text \<open>
  A \<^verbatim>\<open>Composable\<close> is either a \<^verbatim>\<open>Composition\<close>, which owns the ordered vector
  \<^verbatim>\<open>_children\<close>, or any other object (a clip, a gap, a transition), here a \<open>Leaf\<close>.
  \<^verbatim>\<open>dynamic_cast<Composition*>\<close> succeeds on the first constructor only. The payload \<open>'a\<close>
  stands for what the collaborators read from an object: its dynamic type, its name, its times.
\<close>

datatype 'a Composable = Leaf 'a | Composition 'a "'a Composable list"

text \<open>
  Modelled from the spec: \<^verbatim>\<open>Composition::children_in_range\<close> is declared in
  \<^verbatim>\<open>composition.h\<close> and defined in a source file that is not among the sources. The
  specification (4.4) says that it computes two indices by bisection and returns the contiguous
  slice \<^verbatim>\<open>children[first, last)\<close>, preserving order. The embedding takes the computation of
  the two indices and of the error report as a parameter and cuts the slice itself.
\<close>

type_synonym ('a, 'r) children_in_range =
  "'a Composable \<Rightarrow> 'r \<Rightarrow> ErrorStatus option \<Rightarrow> (nat \<times> nat) \<times> ErrorStatus option"

definition slice :: "nat \<times> nat \<Rightarrow> 'b list \<Rightarrow> 'b list" where
  "slice bounds xs = (case bounds of (first_index, last_index) \<Rightarrow>
        take (last_index - first_index) (drop first_index xs))"

text \<open>
  Modelled from the spec: \<^verbatim>\<open>Item::transformed_time_range\<close> is declared in
  \<^verbatim>\<open>item.h\<close>, which is not among the sources. The specification (6) calls it a
  coordinate transform that maps a time range from one composition's local space into a nested
  child's local space. It is a parameter: called on \<^verbatim>\<open>this\<close> with a range, the target item
  and the error handle, it returns the transformed range and the error handle.
\<close>

type_synonym ('a, 'r) transformed_time_range =
  "'a Composable \<Rightarrow> 'r \<Rightarrow> 'a Composable \<Rightarrow> ErrorStatus option \<Rightarrow> 'r \<times> ErrorStatus option"

text \<open>
  Lines 220-225: \<^verbatim>\<open>if (search_range) { search_range = transformed_time_range(*search_range,
  composition, error_status); }\<close>. The result is the new value of the variable
  \<^verbatim>\<open>search_range\<close> and the error handle.
\<close>

definition range_for_child ::
  "('a, 'r) transformed_time_range \<Rightarrow> 'a Composable \<Rightarrow> 'a Composable \<Rightarrow> 'r option
     \<Rightarrow> ErrorStatus option \<Rightarrow> 'r option \<times> ErrorStatus option"
where
  "range_for_child transformed_time_range this composition search_range error_status =
     (case search_range of
        None \<Rightarrow> (None, error_status)
      | Some r \<Rightarrow>
          (case transformed_time_range this r composition error_status of
             (r', error_status1) \<Rightarrow> (Some r', error_status1)))"

text \<open>
  \<^verbatim>\<open>find_children<T>\<close>, lines 184-248. \<open>is_T\<close> is the test
  \<^verbatim>\<open>dynamic_cast<T*>(child.value)\<close>. \<open>find_children\<close> takes the payload and the children of
  \<^verbatim>\<open>this\<close>; \<open>find_children_loop\<close> is the \<^verbatim>\<open>for\<close> loop over the (narrowed) children,
  with the loop state written out: the children still to visit, the vector \<^verbatim>\<open>out\<close>, the
  variable \<^verbatim>\<open>search_range\<close> and the content of the error handle. The three
  \<^verbatim>\<open>return out\<close> statements after an error are the three branches that stop the recursion.
\<close>

function find_children ::
    "('a Composable \<Rightarrow> bool) \<Rightarrow> ('a, 'r) children_in_range \<Rightarrow> ('a, 'r) transformed_time_range
      \<Rightarrow> 'a \<Rightarrow> 'a Composable list \<Rightarrow> ErrorStatus option \<Rightarrow> 'r option \<Rightarrow> bool
      \<Rightarrow> 'a Composable list \<times> ErrorStatus option"
  and find_children_loop ::
    "('a Composable \<Rightarrow> bool) \<Rightarrow> ('a, 'r) children_in_range \<Rightarrow> ('a, 'r) transformed_time_range
      \<Rightarrow> 'a Composable \<Rightarrow> 'a Composable list \<Rightarrow> 'a Composable list \<Rightarrow> 'r option
      \<Rightarrow> ErrorStatus option \<Rightarrow> bool \<Rightarrow> 'a Composable list \<times> ErrorStatus option"
where
  "find_children is_T children_in_range transformed_time_range x all_children
       error_status search_range shallow_search =
     (case search_range of
        Some r \<Rightarrow>
          (case children_in_range (Composition x all_children) r error_status of
             (bounds, error_status1) \<Rightarrow>
               if is_error error_status1 then ([], error_status1)
               else find_children_loop is_T children_in_range transformed_time_range
                      (Composition x all_children) (slice bounds all_children) []
                      search_range error_status1 shallow_search)
      | None \<Rightarrow>
          find_children_loop is_T children_in_range transformed_time_range
            (Composition x all_children) all_children [] search_range error_status shallow_search)"
| "find_children_loop is_T children_in_range transformed_time_range this [] out
       search_range error_status shallow_search = (out, error_status)"
| "find_children_loop is_T children_in_range transformed_time_range this (child # rest) out
       search_range error_status shallow_search =
     (let out1 = (if is_T child then out @ [child] else out) in
      if \<not> shallow_search then
        (case child of
           Composition y ds \<Rightarrow>
             (case range_for_child transformed_time_range this child search_range
                     error_status of
                (search_range1, error_status1) \<Rightarrow>
                  if search_range \<noteq> None \<and> is_error error_status1 then (out1, error_status1)
                  else
                    (case find_children is_T children_in_range transformed_time_range y ds
                            error_status1 search_range1 shallow_search of
                       (valid_children, error_status2) \<Rightarrow>
                         if is_error error_status2 then (out1, error_status2)
                         else find_children_loop is_T children_in_range transformed_time_range
                                this rest (out1 @ valid_children) search_range1 error_status2
                                shallow_search))
         | Leaf _ \<Rightarrow>
             find_children_loop is_T children_in_range transformed_time_range this rest out1
               search_range error_status shallow_search)
      else find_children_loop is_T children_in_range transformed_time_range this rest out1
             search_range error_status shallow_search)"
  by pat_completeness auto

termination
proof -
  have take_le: "size_list size (take n cs) \<le> size_list size cs"
    for n and cs :: "'a Composable list"
    by (induction cs arbitrary: n) (auto simp: take_Cons split: nat.splits)
  have drop_le: "size_list size (drop n cs) \<le> size_list size cs"
    for n and cs :: "'a Composable list"
  proof (induction cs arbitrary: n)
    case Nil
    show ?case by simp
  next
    case (Cons c cs)
    show ?case
    proof (cases n)
      case 0
      then show ?thesis by simp
    next
      case (Suc m)
      with Cons [of m] show ?thesis by simp
    qed
  qed
  have le: "size_list size (take n (drop m cs)) \<le> size_list size cs"
    for n m and cs :: "'a Composable list"
    using take_le [of n "drop m cs"] drop_le [of m cs] by simp
  show ?thesis
    by (relation "measure (\<lambda>a. case a of
            Inl (_, _, _, _, cs, _) \<Rightarrow> Suc (size_list size cs)
          | Inr (_, _, _, _, cs, _) \<Rightarrow> size_list size cs)")
       (auto simp: slice_def le less_Suc_eq_le)
qed

declare find_children.simps [simp del]

declare find_children_loop.simps(2) [simp del]

text \<open>
  Lines 191-205: the vector \<^verbatim>\<open>children\<close> that the loop walks, and the content of the error
  handle when the loop starts: all children without a search range, the slice of
  \<^verbatim>\<open>children_in_range\<close> with one.
\<close>

definition children_searched ::
  "('a, 'r) children_in_range \<Rightarrow> 'a \<Rightarrow> 'a Composable list \<Rightarrow> 'r option \<Rightarrow> ErrorStatus option
     \<Rightarrow> 'a Composable list \<times> ErrorStatus option"
where
  "children_searched children_in_range x all_children search_range error_status =
     (case search_range of
        None \<Rightarrow> (all_children, error_status)
      | Some r \<Rightarrow>
          (case children_in_range (Composition x all_children) r error_status of
             (bounds, error_status1) \<Rightarrow> (slice bounds all_children, error_status1)))"

text \<open>The test \<^verbatim>\<open>dynamic_cast<Composition*>(child.value)\<close> of line 218.\<close>

definition is_composition :: "'a Composable \<Rightarrow> bool" where
  "is_composition child = (case child of Composition _ _ \<Rightarrow> True | Leaf _ \<Rightarrow> False)"

text \<open>
  Lines 209-212: the entry a child contributes itself, one element if it is a \<open>T\<close>, none
  otherwise.
\<close>

definition own_entry :: "('a Composable \<Rightarrow> bool) \<Rightarrow> 'a Composable \<Rightarrow> 'a Composable list" where
  "own_entry is_T child = (if is_T child then [child] else [])"

text \<open>A result with the entries that are not a \<open>T\<close> removed, the error handle as it is.\<close>

definition keep_T ::
  "('a Composable \<Rightarrow> bool) \<Rightarrow> 'a Composable list \<times> ErrorStatus option
     \<Rightarrow> 'a Composable list \<times> ErrorStatus option"
where
  "keep_T is_T result = (case result of (found, error_status) \<Rightarrow> (filter is_T found, error_status))"

text \<open>
  The order of the specification (4.5): pre-order, left to right; the entry of a child, then all
  matches of its subtree, then the next sibling.
\<close>

fun spec_preorder :: "('a Composable \<Rightarrow> bool) \<Rightarrow> 'a Composable \<Rightarrow> 'a Composable list" where
  "spec_preorder is_T (Leaf a) = own_entry is_T (Leaf a)"
| "spec_preorder is_T (Composition y ds) =
     own_entry is_T (Composition y ds) @ concat (map (spec_preorder is_T) ds)"

subsection \<open>A concrete tree and concrete collaborators\<close>

text \<open>
  For the evaluations below an object carries a label, the time at which it starts in its
  parent and its duration; a time range is a pair of start time and duration.
\<close>

record placement =
  label :: string
  start_in_parent :: int
  duration :: int

fun payload :: "'a Composable \<Rightarrow> 'a" where
  "payload (Leaf a) = a"
| "payload (Composition a _) = a"

fun children_of :: "'a Composable \<Rightarrow> 'a Composable list" where
  "children_of (Leaf _) = []"
| "children_of (Composition _ cs) = cs"

text \<open>
  Modelled from the spec: the narrowing of 4.4 on such objects. The first index is the number of
  children whose end time is at most the start of the range (\<^verbatim>\<open>bisect_right\<close> over end
  times), the last index the number of children that start before the end of the range
  (\<^verbatim>\<open>bisect_left\<close> over start times).
\<close>

definition example_children_in_range :: "(placement, int \<times> int) children_in_range" where
  "example_children_in_range this search_range error_status =
     (case search_range of
        (start_time, dur) \<Rightarrow>
          ((length (filter (\<lambda>c. start_in_parent (payload c) + duration (payload c) \<le> start_time)
                     (children_of this)),
            length (filter (\<lambda>c. start_in_parent (payload c) < start_time + dur)
                     (children_of this))),
           error_status))"

text \<open>
  Modelled from the spec: the transform of a range of a composition into the local space of one
  of its direct children, which starts at the child's start time.
\<close>

definition example_transformed_time_range :: "(placement, int \<times> int) transformed_time_range" where
  "example_transformed_time_range this time_range to_item error_status =
     (case time_range of
        (start_time, dur) \<Rightarrow> ((start_time - start_in_parent (payload to_item), dur), error_status))"

text \<open>Collaborators that report a failure on every call, for the error paths.\<close>

definition failing_children_in_range :: "(placement, int \<times> int) children_in_range" where
  "failing_children_in_range this search_range error_status =
     ((0, 0), report error_status INTERNAL_ERROR ''range of child not available'')"

definition failing_transformed_time_range ::
  "(placement, int \<times> int) transformed_time_range" where
  "failing_transformed_time_range this time_range to_item error_status =
     (time_range, report error_status INTERNAL_ERROR ''item is not in this tree'')"

text \<open>A narrowing that fails inside the composition with the given label and nowhere else.\<close>

definition children_in_range_failing_in ::
  "string \<Rightarrow> (placement, int \<times> int) children_in_range" where
  "children_in_range_failing_in n this search_range error_status =
     (if label (payload this) = n
      then failing_children_in_range this search_range error_status
      else example_children_in_range this search_range error_status)"

definition clip :: "string \<Rightarrow> int \<Rightarrow> int \<Rightarrow> placement Composable" where
  "clip n s d = Leaf \<lparr>label = n, start_in_parent = s, duration = d\<rparr>"

definition nested :: "string \<Rightarrow> int \<Rightarrow> int \<Rightarrow> placement Composable list \<Rightarrow> placement Composable" where
  "nested n s d cs = Composition \<lparr>label = n, start_in_parent = s, duration = d\<rparr> cs"

text \<open>
  A parent with a clip \<open>X\<close> on \<open>[0, 5)\<close> and two nested compositions, \<open>A\<close> on \<open>[5, 10)\<close> and
  \<open>B\<close> on \<open>[10, 15)\<close>, each holding one clip that fills it.
\<close>

definition example_children :: "placement Composable list" where
  "example_children =
     [clip ''X'' 0 5,
      nested ''A'' 5 5 [clip ''a1'' 0 5],
      nested ''B'' 10 5 [clip ''b1'' 0 5]]"

definition example_parent :: placement where
  "example_parent = \<lparr>label = ''P'', start_in_parent = 0, duration = 15\<rparr>"

definition is_clip :: "placement Composable \<Rightarrow> bool" where
  "is_clip c = (case c of Leaf _ \<Rightarrow> True | Composition _ _ \<Rightarrow> False)"

definition no_error :: ErrorStatus where
  "no_error = \<lparr>outcome = OK, details = ''''\<rparr>"

section \<open>The reference midpoint\<close>

text \<open>
  Integers of magnitude up to \<open>2 ^ 53\<close> are doubles, so the conversion leaves them alone and the
  reference midpoint is the integer midpoint.
\<close>

lemma bit_width_le: "a < 2 ^ n \<Longrightarrow> bit_width a \<le> n"
proof (induction n arbitrary: a)
  case 0
  then show ?case by (simp add: bit_width.simps)
next
  case (Suc n)
  show ?case
  proof (cases "a \<le> 0")
    case True
    then show ?thesis by (simp add: bit_width.simps)
  next
    case False
    from Suc.prems have "a div 2 < 2 ^ n" by simp
    then have "bit_width (a div 2) \<le> n" by (rule Suc.IH)
    with False show ?thesis by (subst bit_width.simps) simp
  qed
qed

lemma bit_width_pow: "bit_width (2 ^ n) = Suc n"
proof (induction n)
  case 0
  show ?case by (simp add: bit_width.simps)
next
  case (Suc n)
  then show ?case by (subst bit_width.simps) simp
qed

lemma bit_width_numeral:
  "bit_width (numeral n) = Suc (bit_width (numeral n div 2))"
  "bit_width 0 = 0" "bit_width 1 = 1"
  by (simp_all add: bit_width.simps)

lemma round_to_double_exact:
  assumes "\<bar>x\<bar> \<le> 2 ^ 53"
  shows "round_to_double x = x"
proof (cases "\<bar>x\<bar> = 2 ^ 53")
  case True
  have "bit_width \<bar>x\<bar> = Suc 53" unfolding True by (rule bit_width_pow)
  then have "bit_width \<bar>x\<bar> - 53 = 1" by simp
  with True have "round_to_double x = sgn x * \<bar>x\<bar>"
    by (simp add: round_to_double_def Let_def)
  then show ?thesis by (simp add: mult_sgn_abs)
next
  case False
  with assms have "\<bar>x\<bar> < 2 ^ 53" by simp
  then have "bit_width \<bar>x\<bar> \<le> 53" by (rule bit_width_le)
  then have "bit_width \<bar>x\<bar> - 53 = 0" by simp
  then have "round_to_double x = sgn x * \<bar>x\<bar>"
    by (simp add: round_to_double_def Let_def)
  then show ?thesis by (simp add: mult_sgn_abs)
qed

lemma midpoint_original_exact:
  assumes "0 \<le> lower" "lower \<le> upper" "lower + upper \<le> 2 ^ 53"
  shows "midpoint_original lower upper = lower + (upper - lower) div 2"
proof -
  from assms have "\<bar>lower + upper\<bar> \<le> 2 ^ 53" by simp
  then have "round_to_double (lower + upper) = lower + upper"
    by (rule round_to_double_exact)
  then have "midpoint_original lower upper = (lower + upper) div 2"
    by (simp add: midpoint_original_def)
  also have "\<dots> = lower + (upper - lower) div 2" by presburger
  finally show ?thesis .
qed

text \<open>
  Beyond \<open>2 ^ 53\<close> the conversion may move the sum, but never below \<open>2 ^ 53\<close>: the reference
  midpoint of such bounds is at least \<open>2 ^ 52\<close>.
\<close>

lemma bit_width_gt: "2 ^ n \<le> a \<Longrightarrow> n < bit_width a"
proof (induction n arbitrary: a)
  case 0
  then show ?case by (subst bit_width.simps) simp
next
  case (Suc n)
  then have "2 ^ n \<le> a div 2" by simp
  then have "n < bit_width (a div 2)" by (rule Suc.IH)
  moreover have "(0::int) < 2 ^ Suc n" by simp
  with Suc.prems have "0 < a" by linarith
  ultimately show ?case by (subst bit_width.simps) simp
qed

lemma bit_width_lower: "0 < a \<Longrightarrow> 2 ^ (bit_width a - 1) \<le> a"
proof (induction a rule: bit_width.induct)
  case (1 a)
  show ?case
  proof (cases "a div 2 \<le> 0")
    case True
    with 1(2) have "a = 1" by linarith
    then show ?thesis by (simp add: bit_width.simps)
  next
    case False
    with 1 have IH: "2 ^ (bit_width (a div 2) - 1) \<le> a div 2" by simp
    from False have "0 < bit_width (a div 2)" by (subst bit_width.simps) simp
    then have "(2::int) ^ bit_width (a div 2) = 2 * 2 ^ (bit_width (a div 2) - 1)"
      by (cases "bit_width (a div 2)") simp_all
    also from IH have "\<dots> \<le> 2 * (a div 2)" by simp
    also have "\<dots> \<le> a" by simp
    finally have "2 ^ bit_width (a div 2) \<le> a" .
    moreover from 1(2) have "bit_width a = Suc (bit_width (a div 2))"
      by (subst bit_width.simps) simp
    ultimately show ?thesis by simp
  qed
qed

lemma round_to_double_large:
  assumes "2 ^ 53 < x"
  shows "2 ^ 53 \<le> round_to_double x"
proof -
  define w where "w = bit_width x"
  define e where "e = w - 53"
  from assms have pos: "0 < x" by simp
  from assms have "(2::int) ^ 53 \<le> x" by simp
  then have w: "53 < w" unfolding w_def by (rule bit_width_gt)
  then have e: "1 \<le> e" "w - 1 = 52 + e" unfolding e_def by simp_all
  from bit_width_lower [OF pos] have "2 ^ (w - 1) \<le> x" by (simp add: w_def)
  then have "2 ^ (52 + e) \<le> x" by (simp only: e)
  then have "(2 ^ 52 * 2 ^ e) div 2 ^ e \<le> x div 2 ^ e"
    by (intro zdiv_mono1) (simp_all add: power_add)
  then have q: "2 ^ 52 \<le> x div 2 ^ e" by simp
  define m where "m = (if 2 * (x mod 2 ^ e) > 2 ^ e \<or> (2 * (x mod 2 ^ e) = 2 ^ e \<and> odd (x div 2 ^ e))
                       then x div 2 ^ e + 1 else x div 2 ^ e)"
  from q have m: "2 ^ 52 \<le> m" by (simp add: m_def)
  from e have "(2::int) ^ 1 \<le> 2 ^ e" by (intro power_increasing) simp_all
  then have u: "(2::int) \<le> 2 ^ e" by simp
  from m u have "(2 ^ 52 * 2 :: int) \<le> m * 2 ^ e" by (intro mult_mono) simp_all
  moreover from pos have "round_to_double x = m * 2 ^ e"
    by (simp add: round_to_double_def Let_def m_def e_def w_def)
  ultimately show ?thesis by simp
qed

lemma midpoint_original_large:
  assumes "2 ^ 53 < lower + upper"
  shows "2 ^ 52 \<le> midpoint_original lower upper"
proof -
  from round_to_double_large [OF assms]
  have "(2 ^ 53 :: int) div 2 \<le> round_to_double (lower + upper) div 2"
    by (rule zdiv_mono1) simp
  then show ?thesis by (simp add: midpoint_original_def)
qed

section \<open>The loops, step by step\<close>

lemma branchless_step:
  assumes "left < right" "seq_at seq (left + (right - left) div 2) = Some c"
  shows "branchless_loop seq t k left right =
           (if k c \<le> t then branchless_loop seq t k (left + (right - left) div 2 + 1) right
            else branchless_loop seq t k left (left + (right - left) div 2))"
  using assms
  by (subst branchless_loop.simps) (auto simp: Let_def drop_bit_eq_div add.assoc)

lemma branchless_fault:
  assumes "left < right" "seq_at seq (left + (right - left) div 2) = None"
  shows "branchless_loop seq t k left right = Inl VectorOutOfRange"
  using assms by (subst branchless_loop.simps) (simp add: Let_def drop_bit_eq_div)

lemma branchless_done: "\<not> left < right \<Longrightarrow> branchless_loop seq t k left right = Inr left"
  by (subst branchless_loop.simps) simp

lemma branchless_unfold:
  assumes "left < right" "0 \<le> left" "right \<le> int (length seq)"
  shows "branchless_loop seq t k left right =
           (if k (seq ! nat (left + (right - left) div 2)) \<le> t
            then branchless_loop seq t k (left + (right - left) div 2 + 1) right
            else branchless_loop seq t k left (left + (right - left) div 2))"
proof -
  from assms have "seq_at seq (left + (right - left) div 2)
                     = Some (seq ! nat (left + (right - left) div 2))"
    by (simp add: seq_at_def)
  from branchless_step [OF assms(1) this] show ?thesis .
qed

lemma original_fault:
  assumes "left < right" "seq_at seq (midpoint_original left right) = None"
  shows "original_loop seq t k left right = Some (Inl VectorOutOfRange)"
  using assms by (subst original_loop.simps) simp

lemma original_is_branchless:
  assumes "0 \<le> left" "right \<le> int (length seq)" "int (length seq) \<le> 2 ^ 52"
  shows "original_loop seq t k left right = Some (branchless_loop seq t k left right)"
  using assms
proof (induction "nat (right - left)" arbitrary: left right rule: less_induct)
  case less
  show ?case
  proof (cases "left < right")
    case False
    then show ?thesis by (subst original_loop.simps) (simp add: branchless_done)
  next
    case True
    define mid where "mid = left + (right - left) div 2"
    from True less.prems have le: "left + right \<le> 2 ^ 53" by simp
    with True less.prems have m: "midpoint_original left right = mid"
      unfolding mid_def by (intro midpoint_original_exact) simp_all
    from True have bounds: "left \<le> mid" "mid < right" unfolding mid_def by simp_all
    with less.prems have "0 \<le> mid" "mid < int (length seq)" by simp_all
    then have at: "seq_at seq mid = Some (seq ! nat mid)" by (simp add: seq_at_def)
    show ?thesis
    proof (cases "t < k (seq ! nat mid)")
      case lt: True
      have "original_loop seq t k left right = original_loop seq t k left mid"
        using True m at lt by (subst original_loop.simps) simp
      also have "\<dots> = Some (branchless_loop seq t k left mid)"
        using bounds less.prems by (intro less.hyps) simp_all
      also have "branchless_loop seq t k left mid = branchless_loop seq t k left right"
        using branchless_step [OF True at [unfolded mid_def], of t k] lt
        by (auto simp: mid_def)
      finally show ?thesis .
    next
      case ge: False
      have "original_loop seq t k left right = original_loop seq t k (mid + 1) right"
        using True m at ge by (subst original_loop.simps) simp
      also have "\<dots> = Some (branchless_loop seq t k (mid + 1) right)"
        using bounds less.prems by (intro less.hyps) simp_all
      also have "branchless_loop seq t k (mid + 1) right = branchless_loop seq t k left right"
        using branchless_step [OF True at [unfolded mid_def], of t k] ge
        by (auto simp: mid_def)
      finally show ?thesis .
    qed
  qed
qed

lemma original_is_branchless_any_upper:
  assumes "0 \<le> left" "int (length seq) \<le> 2 ^ 52"
  shows "original_loop seq t k left right = Some (branchless_loop seq t k left right)"
  using assms(1)
proof (induction "nat (right - left)" arbitrary: left right rule: less_induct)
  case less
  show ?case
  proof (cases "left < right")
    case False
    then show ?thesis by (subst original_loop.simps) (simp add: branchless_done)
  next
    case True
    define mid where "mid = left + (right - left) div 2"
    from True have bounds: "left \<le> mid" "mid < right" unfolding mid_def by simp_all
    show ?thesis
    proof (cases "left + right \<le> 2 ^ 53")
      case small: True
      with True less.prems have m: "midpoint_original left right = mid"
        unfolding mid_def by (intro midpoint_original_exact) simp_all
      show ?thesis
      proof (cases "seq_at seq mid")
        case None
        with True m show ?thesis
          by (simp add: original_fault branchless_fault [OF True None [unfolded mid_def]])
      next
        case (Some c)
        note step = branchless_step [OF True Some [unfolded mid_def], of t k, folded mid_def]
        show ?thesis
        proof (cases "t < k c")
          case lt: True
          have "original_loop seq t k left right = original_loop seq t k left mid"
            using True m Some lt by (subst original_loop.simps) simp
          also have "\<dots> = Some (branchless_loop seq t k left mid)"
            using bounds less.prems by (intro less.hyps) simp_all
          finally show ?thesis using step lt by auto
        next
          case ge: False
          have "original_loop seq t k left right = original_loop seq t k (mid + 1) right"
            using True m Some ge by (subst original_loop.simps) simp
          also have "\<dots> = Some (branchless_loop seq t k (mid + 1) right)"
            using bounds less.prems by (intro less.hyps) simp_all
          finally show ?thesis using step ge by auto
        qed
      qed
    next
      case large: False
      then have "2 ^ 53 < left + right" by simp
      then have "2 ^ 52 \<le> midpoint_original left right" by (rule midpoint_original_large)
      with assms(2) have o: "seq_at seq (midpoint_original left right) = None"
        by (simp add: seq_at_def)
      have "(2::int) ^ 53 = 2 * 2 ^ 52" by simp
      with large have "2 * 2 ^ 52 < left + right" by simp
      then have "2 ^ 52 \<le> (left + right) div 2" by linarith
      also have "(left + right) div 2 = mid" unfolding mid_def by presburger
      finally have "2 ^ 52 \<le> mid" .
      with assms(2) have "seq_at seq mid = None" by (simp add: seq_at_def)
      then have "branchless_loop seq t k left right = Inl VectorOutOfRange"
        using True unfolding mid_def by (intro branchless_fault)
      with original_fault [OF True o] show ?thesis by simp
    qed
  qed
qed

lemma prefetch_is_branchless:
  assumes "0 \<le> left" "right \<le> int (length seq)"
  shows "prefetch_loop e seq t k left right = branchless_loop seq t k left right"
  using assms
proof (induction "nat (right - left)" arbitrary: left right rule: less_induct)
  case less
  show ?case
  proof (cases "left < right")
    case False
    then show ?thesis
      by (subst prefetch_loop.simps) (simp add: branchless_done)
  next
    case True
    define mid where "mid = left + (right - left) div 2"
    from True have bounds: "left \<le> mid" "mid < right" unfolding mid_def by simp_all
    with less.prems have "0 \<le> mid" "mid < int (length seq)" by simp_all
    then have at: "seq_at seq mid = Some (seq ! nat mid)" by (simp add: seq_at_def)
    have lo: "seq_at seq (mid - (mid - left) div 2) \<noteq> None"
      using bounds less.prems by (auto simp: seq_at_def)
    have hi: "seq_at seq (mid + (right - mid) div 2) \<noteq> None"
      using bounds less.prems by (auto simp: seq_at_def)
    note step = branchless_step [OF True at [unfolded mid_def], of t k, folded mid_def]
    show ?thesis
    proof (cases "k (seq ! nat mid) \<le> t")
      case le: True
      have "prefetch_loop e seq t k left right = prefetch_loop e seq t k (mid + 1) right"
        using True at lo hi le
        by (subst prefetch_loop.simps) (auto simp: Let_def drop_bit_eq_div mid_def [symmetric])
      also have "\<dots> = branchless_loop seq t k (mid + 1) right"
        using bounds less.prems by (intro less.hyps) simp_all
      finally show ?thesis using step le by simp
    next
      case gt: False
      have "prefetch_loop e seq t k left right = prefetch_loop e seq t k left mid"
        using True at lo hi gt
        by (subst prefetch_loop.simps) (auto simp: Let_def drop_bit_eq_div mid_def [symmetric])
      also have "\<dots> = branchless_loop seq t k left mid"
        using bounds less.prems by (intro less.hyps) simp_all
      finally show ?thesis using step gt by simp
    qed
  qed
qed

lemma prefetch_of_bool:
  "prefetch_loop e seq t k (left + of_bool b * (mid + 1 - left))
       (right - of_bool (\<not> b) * (right - mid))
     = (if b then prefetch_loop e seq t k (mid + 1) right
        else prefetch_loop e seq t k left mid)"
  by simp

lemma prefetch_unfold:
  assumes "left < right"
  shows "prefetch_loop e seq t k left right =
      (if int e < right - left
            \<and> (seq_at seq (left + (right - left) div 2 - (left + (right - left) div 2 - left) div 2) = None
                \<or> seq_at seq (left + (right - left) div 2 + (right - (left + (right - left) div 2)) div 2) = None)
       then Inl VectorOutOfRange
       else case seq_at seq (left + (right - left) div 2) of None \<Rightarrow> Inl VectorOutOfRange
            | Some c \<Rightarrow> if k c \<le> t then prefetch_loop e seq t k (left + (right - left) div 2 + 1) right
                        else prefetch_loop e seq t k left (left + (right - left) div 2))"
  by (subst prefetch_loop.simps)
     (simp only: Let_def drop_bit_eq_div power_one_right prefetch_of_bool assms if_True)

lemma unrolled_done:
  "\<not> right - left > 4 \<Longrightarrow> - (2 ^ 63) \<le> right - left
     \<Longrightarrow> unrolled_loop seq t k left right = branchless_loop seq t k left right"
  by (subst unrolled_loop.simps) simp

lemma unrolled_overflow:
  "right - left < - (2 ^ 63) \<Longrightarrow> unrolled_loop seq t k left right = Inl SignedOverflow"
  by (subst unrolled_loop.simps) simp

lemma unrolled_step:
  assumes "right - left > 4"
    and "seq_at seq (left + (right - left) div 4) = Some c1"
    and "seq_at seq (left + (right - left) div 2) = Some c2"
    and "seq_at seq (right - (right - left) div 4) = Some c3"
  shows "unrolled_loop seq t k left right =
     (if t < k c1 then unrolled_loop seq t k left (left + (right - left) div 4)
      else if t < k c2
        then unrolled_loop seq t k (left + (right - left) div 4 + 1) (left + (right - left) div 2)
      else if t < k c3
        then unrolled_loop seq t k (left + (right - left) div 2 + 1) (right - (right - left) div 4)
      else unrolled_loop seq t k (right - (right - left) div 4 + 1) right)"
  using assms
  by (subst unrolled_loop.simps) (simp add: Let_def drop_bit_eq_div)

lemma unrolled_unfold:
  assumes "right - left > 4" "0 \<le> left" "right \<le> int (length seq)"
  shows "unrolled_loop seq t k left right =
     (if t < k (seq ! nat (left + (right - left) div 4))
        then unrolled_loop seq t k left (left + (right - left) div 4)
      else if t < k (seq ! nat (left + (right - left) div 2))
        then unrolled_loop seq t k (left + (right - left) div 4 + 1) (left + (right - left) div 2)
      else if t < k (seq ! nat (right - (right - left) div 4))
        then unrolled_loop seq t k (left + (right - left) div 2 + 1) (right - (right - left) div 4)
      else unrolled_loop seq t k (right - (right - left) div 4 + 1) right)"
proof -
  from assms have
    "seq_at seq (left + (right - left) div 4) = Some (seq ! nat (left + (right - left) div 4))"
    "seq_at seq (left + (right - left) div 2) = Some (seq ! nat (left + (right - left) div 2))"
    "seq_at seq (right - (right - left) div 4) = Some (seq ! nat (right - (right - left) div 4))"
    by (auto simp: seq_at_def)
  from unrolled_step [OF assms(1) this] show ?thesis .
qed

lemma unrolled_fault:
  assumes "right - left > 4" "seq_at seq (right - (right - left) div 4) = None"
  shows "unrolled_loop seq t k left right = Inl VectorOutOfRange"
  using assms
  by (subst unrolled_loop.simps) (simp add: Let_def drop_bit_eq_div split: option.splits)

lemma ball_int_range:
  "(\<forall>i\<in>{l..<u::int}. P i) = (if l < u then P l \<and> (\<forall>i\<in>{l + 1..<u}. P i) else True)"
proof (cases "l < u")
  case True
  then have "{l..<u} = insert l {l + 1..<u}" by auto
  with True show ?thesis by simp
next
  case False
  then show ?thesis by simp
qed

section \<open>Correctness on sorted ranges\<close>

lemma key_sortedD:
  "key_sorted k seq lower upper \<Longrightarrow> lower \<le> i \<Longrightarrow> i \<le> j \<Longrightarrow> j < upper
     \<Longrightarrow> k (seq ! nat i) \<le> k (seq ! nat j)"
  by (simp add: key_sorted_def)

lemma key_sorted_sub:
  "key_sorted k seq lower upper \<Longrightarrow> lower \<le> l \<Longrightarrow> u \<le> upper \<Longrightarrow> key_sorted k seq l u"
  by (simp add: key_sorted_def)

lemma insertion_point_unique:
  assumes "insertion_point k seq t lower upper p" "insertion_point k seq t lower upper q"
  shows "p = q"
proof (rule ccontr)
  assume "p \<noteq> q"
  then consider "p < q" | "q < p" by linarith
  then show False
  proof cases
    case 1
    with assms have "k (seq ! nat p) \<le> t" "t < k (seq ! nat p)"
      by (simp_all add: insertion_point_def)
    then show False by simp
  next
    case 2
    with assms have "k (seq ! nat q) \<le> t" "t < k (seq ! nat q)"
      by (simp_all add: insertion_point_def)
    then show False by simp
  qed
qed

lemma insertion_point_left:
  assumes "insertion_point k seq t lower mid p" "mid < upper" "lower \<le> mid"
    and "key_sorted k seq lower upper" "t < k (seq ! nat mid)"
  shows "insertion_point k seq t lower upper p"
proof -
  have "t < k (seq ! nat i)" if "i \<in> {mid..<upper}" for i
  proof -
    from that assms have "k (seq ! nat mid) \<le> k (seq ! nat i)"
      by (intro key_sortedD [of k seq lower upper]) simp_all
    with assms(5) show ?thesis by simp
  qed
  then have "\<forall>i\<in>{p..<upper}. t < k (seq ! nat i)"
    using assms(1) by (auto simp: insertion_point_def)
  with assms show ?thesis by (simp add: insertion_point_def)
qed

lemma insertion_point_right:
  assumes "insertion_point k seq t (mid + 1) upper p" "mid < upper" "lower \<le> mid"
    and "key_sorted k seq lower upper" "k (seq ! nat mid) \<le> t"
  shows "insertion_point k seq t lower upper p"
proof -
  have "k (seq ! nat i) \<le> t" if "i \<in> {lower..mid}" for i
  proof -
    from that assms have "k (seq ! nat i) \<le> k (seq ! nat mid)"
      by (intro key_sortedD [of k seq lower upper]) simp_all
    with assms(5) show ?thesis by simp
  qed
  then have "\<forall>i\<in>{lower..<p}. k (seq ! nat i) \<le> t"
    using assms(1) by (auto simp: insertion_point_def)
  with assms show ?thesis by (simp add: insertion_point_def)
qed

lemma branchless_correct:
  assumes "0 \<le> left" "left \<le> right" "right \<le> int (length seq)" "key_sorted k seq left right"
  shows "\<exists>p. branchless_loop seq t k left right = Inr p \<and> insertion_point k seq t left right p"
  using assms
proof (induction "nat (right - left)" arbitrary: left right rule: less_induct)
  case less
  show ?case
  proof (cases "left < right")
    case False
    with less.prems(2) have "left = right" by simp
    then show ?thesis by (simp add: branchless_done insertion_point_def)
  next
    case True
    define mid where "mid = left + (right - left) div 2"
    from True have bounds: "left \<le> mid" "mid < right" unfolding mid_def by simp_all
    with less.prems have "0 \<le> mid" "mid < int (length seq)" by simp_all
    then have at: "seq_at seq mid = Some (seq ! nat mid)" by (simp add: seq_at_def)
    note step = branchless_step [OF True at [unfolded mid_def], of t k, folded mid_def]
    show ?thesis
    proof (cases "k (seq ! nat mid) \<le> t")
      case le: True
      have "\<exists>p. branchless_loop seq t k (mid + 1) right = Inr p
                 \<and> insertion_point k seq t (mid + 1) right p"
      proof (rule less.hyps)
        show "nat (right - (mid + 1)) < nat (right - left)" using bounds by simp
        show "0 \<le> mid + 1" using bounds less.prems(1) by simp
        show "mid + 1 \<le> right" using bounds by simp
        show "right \<le> int (length seq)" by (rule less.prems(3))
        show "key_sorted k seq (mid + 1) right"
          by (rule key_sorted_sub [OF less.prems(4)]) (use bounds in simp_all)
      qed
      then obtain p where p: "branchless_loop seq t k (mid + 1) right = Inr p"
          "insertion_point k seq t (mid + 1) right p"
        by blast
      from p(2) bounds(2) bounds(1) less.prems(4) le
      have "insertion_point k seq t left right p" by (rule insertion_point_right)
      moreover from step le p(1) have "branchless_loop seq t k left right = Inr p" by simp
      ultimately show ?thesis by blast
    next
      case gt: False
      have "\<exists>p. branchless_loop seq t k left mid = Inr p
                 \<and> insertion_point k seq t left mid p"
      proof (rule less.hyps)
        show "nat (mid - left) < nat (right - left)" using bounds by simp
        show "0 \<le> left" by (rule less.prems(1))
        show "left \<le> mid" by (rule bounds(1))
        show "mid \<le> int (length seq)" using bounds less.prems(3) by simp
        show "key_sorted k seq left mid"
          by (rule key_sorted_sub [OF less.prems(4)]) (use bounds in simp_all)
      qed
      then obtain p where p: "branchless_loop seq t k left mid = Inr p"
          "insertion_point k seq t left mid p"
        by blast
      from gt have gt': "t < k (seq ! nat mid)" by simp
      from p(2) bounds(2) bounds(1) less.prems(4) gt'
      have "insertion_point k seq t left right p" by (rule insertion_point_left)
      moreover from step gt p(1) have "branchless_loop seq t k left right = Inr p" by simp
      ultimately show ?thesis by blast
    qed
  qed
qed

lemma unrolled_correct:
  assumes "0 \<le> left" "left \<le> right" "right \<le> int (length seq)" "key_sorted k seq left right"
  shows "\<exists>p. unrolled_loop seq t k left right = Inr p \<and> insertion_point k seq t left right p"
  using assms
proof (induction "nat (right - left)" arbitrary: left right rule: less_induct)
  case less
  show ?case
  proof (cases "right - left > 4")
    case False
    moreover from less.prems(2) have "- (2 ^ 63) \<le> right - left" by simp
    ultimately show ?thesis
      using branchless_correct [OF less.prems, of t] by (simp add: unrolled_done)
  next
    case True
    define mid1 where "mid1 = left + (right - left) div 4"
    define mid2 where "mid2 = left + (right - left) div 2"
    define mid3 where "mid3 = right - (right - left) div 4"
    from True have bounds: "left < mid1" "mid1 < mid2" "mid2 < mid3" "mid3 < right"
      unfolding mid1_def mid2_def mid3_def by simp_all
    with less.prems have at:
      "seq_at seq mid1 = Some (seq ! nat mid1)"
      "seq_at seq mid2 = Some (seq ! nat mid2)"
      "seq_at seq mid3 = Some (seq ! nat mid3)"
      by (simp_all add: seq_at_def)
    note step = unrolled_step [OF True at [unfolded mid1_def mid2_def mid3_def], of t k,
        folded mid1_def mid2_def mid3_def]
    note sorted = less.prems(4)
    have sub: "key_sorted k seq l u" if "left \<le> l" "u \<le> right" for l u
      using sorted that by (rule key_sorted_sub)
    have IH: "\<exists>p. unrolled_loop seq t k l u = Inr p \<and> insertion_point k seq t l u p"
      if "left \<le> l" "l \<le> u" "u \<le> right" "u - l < right - left" for l u
    proof (rule less.hyps)
      show "nat (u - l) < nat (right - left)" using that by simp
      show "0 \<le> l" using that less.prems(1) by simp
      show "l \<le> u" by (rule that(2))
      show "u \<le> int (length seq)" using that less.prems(3) by simp
      show "key_sorted k seq l u" using that(1,3) by (rule sub)
    qed
    have le12: "k (seq ! nat mid1) \<le> k (seq ! nat mid2)"
      by (rule key_sortedD [OF sorted]) (use bounds in simp_all)
    have le23: "k (seq ! nat mid2) \<le> k (seq ! nat mid3)"
      by (rule key_sortedD [OF sorted]) (use bounds in simp_all)
    consider (a) "t < k (seq ! nat mid1)"
      | (b) "\<not> t < k (seq ! nat mid1)" "t < k (seq ! nat mid2)"
      | (c) "\<not> t < k (seq ! nat mid2)" "t < k (seq ! nat mid3)"
      | (d) "\<not> t < k (seq ! nat mid3)"
      by blast
    then show ?thesis
    proof cases
      case a
      have "\<exists>p. unrolled_loop seq t k left mid1 = Inr p \<and> insertion_point k seq t left mid1 p"
        by (rule IH) (use bounds in simp_all)
      then obtain p where
        p: "unrolled_loop seq t k left mid1 = Inr p" "insertion_point k seq t left mid1 p"
        by blast
      have "insertion_point k seq t left right p"
        by (rule insertion_point_left [OF p(2) _ _ sorted a]) (use bounds in simp_all)
      moreover from step a p(1) have "unrolled_loop seq t k left right = Inr p" by simp
      ultimately show ?thesis by blast
    next
      case b
      have "\<exists>p. unrolled_loop seq t k (mid1 + 1) mid2 = Inr p
                 \<and> insertion_point k seq t (mid1 + 1) mid2 p"
        by (rule IH) (use bounds in simp_all)
      then obtain p where
        p: "unrolled_loop seq t k (mid1 + 1) mid2 = Inr p"
           "insertion_point k seq t (mid1 + 1) mid2 p"
        by blast
      have s: "key_sorted k seq (mid1 + 1) right" by (rule sub) (use bounds in simp_all)
      have "insertion_point k seq t (mid1 + 1) right p"
        by (rule insertion_point_left [OF p(2) _ _ s b(2)]) (use bounds in simp_all)
      moreover from b(1) have "k (seq ! nat mid1) \<le> t" by simp
      ultimately have "insertion_point k seq t left right p"
        using bounds sorted by (intro insertion_point_right [of k seq t mid1 right p left]) simp_all
      moreover from step b p(1) have "unrolled_loop seq t k left right = Inr p" by simp
      ultimately show ?thesis by blast
    next
      case c
      from c(1) le12 have n1: "\<not> t < k (seq ! nat mid1)" by simp
      have "\<exists>p. unrolled_loop seq t k (mid2 + 1) mid3 = Inr p
                 \<and> insertion_point k seq t (mid2 + 1) mid3 p"
        by (rule IH) (use bounds in simp_all)
      then obtain p where
        p: "unrolled_loop seq t k (mid2 + 1) mid3 = Inr p"
           "insertion_point k seq t (mid2 + 1) mid3 p"
        by blast
      have s: "key_sorted k seq (mid2 + 1) right" by (rule sub) (use bounds in simp_all)
      have "insertion_point k seq t (mid2 + 1) right p"
        by (rule insertion_point_left [OF p(2) _ _ s c(2)]) (use bounds in simp_all)
      moreover from c(1) have "k (seq ! nat mid2) \<le> t" by simp
      ultimately have "insertion_point k seq t left right p"
        using bounds sorted by (intro insertion_point_right [of k seq t mid2 right p left]) simp_all
      moreover from step c n1 p(1) have "unrolled_loop seq t k left right = Inr p" by simp
      ultimately show ?thesis by blast
    next
      case d
      from d le23 have n2: "\<not> t < k (seq ! nat mid2)" by simp
      with le12 have n1: "\<not> t < k (seq ! nat mid1)" by simp
      have "\<exists>p. unrolled_loop seq t k (mid3 + 1) right = Inr p
                 \<and> insertion_point k seq t (mid3 + 1) right p"
        by (rule IH) (use bounds in simp_all)
      then obtain p where
        p: "unrolled_loop seq t k (mid3 + 1) right = Inr p"
           "insertion_point k seq t (mid3 + 1) right p"
        by blast
      from d have "k (seq ! nat mid3) \<le> t" by simp
      with p(2) have "insertion_point k seq t left right p"
        using bounds sorted by (intro insertion_point_right [of k seq t mid3 right p left]) simp_all
      moreover from step d n1 n2 p(1) have "unrolled_loop seq t k left right = Inr p" by simp
      ultimately show ?thesis by blast
    qed
  qed
qed

lemma unrolled_eq_branchless:
  assumes "0 \<le> left" "right \<le> int (length seq)" "key_sorted k seq left right"
    and "- (2 ^ 63) \<le> right - left"
  shows "unrolled_loop seq t k left right = branchless_loop seq t k left right"
proof (cases "left \<le> right")
  case False
  with assms(4) show ?thesis by (simp add: unrolled_done)
next
  case True
  from unrolled_correct [OF assms(1) True assms(2,3), of t]
  obtain p where p: "unrolled_loop seq t k left right = Inr p"
    "insertion_point k seq t left right p" by blast
  from branchless_correct [OF assms(1) True assms(2,3), of t]
  obtain q where q: "branchless_loop seq t k left right = Inr q"
    "insertion_point k seq t left right q" by blast
  from p(2) q(2) have "p = q" by (rule insertion_point_unique)
  with p(1) q(1) show ?thesis by simp
qed

lemma insertion_point_is_spec_index:
  assumes "insertion_point k seq t lower upper p"
  shows "spec_bisect_right_index k seq t lower upper p"
proof -
  have "p \<le> i" if i: "i \<in> {lower..upper}"
    and gt: "\<forall>idx\<in>{i..<upper}. t < k (seq ! nat idx)" for i
  proof (rule ccontr)
    assume "\<not> p \<le> i"
    with i assms have "i \<in> {lower..<p}" "i \<in> {i..<upper}"
      by (simp_all add: insertion_point_def)
    with assms gt have "k (seq ! nat i) \<le> t" "t < k (seq ! nat i)"
      by (simp_all add: insertion_point_def)
    then show False by simp
  qed
  with assms show ?thesis
    by (simp add: spec_bisect_right_index_def insertion_point_def)
qed

lemma insertion_point_count:
  assumes "insertion_point k seq t 0 (int (length seq)) p"
  shows "p = int (length (filter (\<lambda>c. k c \<le> t) seq))"
proof -
  define n where "n = nat p"
  from assms have "0 \<le> p" "p \<le> int (length seq)"
    by (simp_all add: insertion_point_def)
  then have n: "n \<le> length seq" "p = int n"
    unfolding n_def by linarith+
  have low: "k x \<le> t" if "x \<in> set (take n seq)" for x
  proof -
    from that obtain i where i: "i < length (take n seq)" "x = take n seq ! i"
      by (auto simp: in_set_conv_nth)
    then have "i < n" "x = seq ! i" by simp_all
    moreover from \<open>i < n\<close> n have "int i \<in> {0..<p}" by simp
    then have "k (seq ! nat (int i)) \<le> t"
      using assms unfolding insertion_point_def by blast
    ultimately show ?thesis by simp
  qed
  have high: "\<not> k x \<le> t" if "x \<in> set (drop n seq)" for x
  proof -
    from that obtain i where i: "i < length (drop n seq)" "x = drop n seq ! i"
      by (auto simp: in_set_conv_nth)
    then have ni: "n + i < length seq" "x = seq ! (n + i)" by simp_all
    from this n have "int (n + i) \<in> {p..<int (length seq)}" by simp
    then have "t < k (seq ! nat (int (n + i)))"
      using assms unfolding insertion_point_def by blast
    moreover have "nat (int (n + i)) = n + i" by (rule nat_int)
    ultimately show ?thesis using \<open>x = seq ! (n + i)\<close> by (simp only: not_le)
  qed
  have "filter (\<lambda>c. k c \<le> t) seq
          = filter (\<lambda>c. k c \<le> t) (take n seq) @ filter (\<lambda>c. k c \<le> t) (drop n seq)"
    by (metis append_take_drop_id filter_append)
  also have "filter (\<lambda>c. k c \<le> t) (take n seq) = take n seq"
    using low by (simp add: filter_id_conv)
  also have "filter (\<lambda>c. k c \<le> t) (drop n seq) = []"
    using high by (simp add: filter_empty_conv)
  finally show ?thesis using n by simp
qed

section \<open>Termination and the indices that are read\<close>

lemma agree_between_sub:
  "agree_between seq seq' lower upper \<Longrightarrow> lower \<le> l \<Longrightarrow> u \<le> upper
     \<Longrightarrow> agree_between seq seq' l u"
  by (simp add: agree_between_def)

lemma agree_between_at:
  "agree_between seq seq' lower upper \<Longrightarrow> lower \<le> i \<Longrightarrow> i < upper
     \<Longrightarrow> seq_at seq' i = seq_at seq i"
  by (simp add: agree_between_def seq_at_def)

lemma branchless_returns:
  assumes "0 \<le> left" "right \<le> int (length seq)"
  shows "\<exists>p. branchless_loop seq t k left right = Inr p \<and> left \<le> p \<and> p \<le> max left right"
  using assms
proof (induction "nat (right - left)" arbitrary: left right rule: less_induct)
  case less
  show ?case
  proof (cases "left < right")
    case False
    then show ?thesis by (simp add: branchless_done)
  next
    case True
    define mid where "mid = left + (right - left) div 2"
    from True have bounds: "left \<le> mid" "mid < right" unfolding mid_def by simp_all
    note step = branchless_unfold [OF True less.prems, of t k, folded mid_def]
    show ?thesis
    proof (cases "k (seq ! nat mid) \<le> t")
      case le: True
      have "\<exists>p. branchless_loop seq t k (mid + 1) right = Inr p
                 \<and> mid + 1 \<le> p \<and> p \<le> max (mid + 1) right"
        by (rule less.hyps) (use bounds less.prems in simp_all)
      then obtain p where "branchless_loop seq t k (mid + 1) right = Inr p"
        "mid + 1 \<le> p" "p \<le> max (mid + 1) right" by blast
      with step le bounds show ?thesis by simp
    next
      case gt: False
      have "\<exists>p. branchless_loop seq t k left mid = Inr p \<and> left \<le> p \<and> p \<le> max left mid"
        by (rule less.hyps) (use bounds less.prems in simp_all)
      then obtain p where "branchless_loop seq t k left mid = Inr p"
        "left \<le> p" "p \<le> max left mid" by blast
      with step gt bounds show ?thesis by simp
    qed
  qed
qed

lemma unrolled_returns:
  assumes "0 \<le> left" "right \<le> int (length seq)" "- (2 ^ 63) \<le> right - left"
  shows "\<exists>p. unrolled_loop seq t k left right = Inr p \<and> left \<le> p \<and> p \<le> max left right"
  using assms
proof (induction "nat (right - left)" arbitrary: left right rule: less_induct)
  case less
  show ?case
  proof (cases "right - left > 4")
    case False
    with less.prems(3) show ?thesis
      using branchless_returns [OF less.prems(1,2), of t k] by (simp add: unrolled_done)
  next
    case True
    define mid1 where "mid1 = left + (right - left) div 4"
    define mid2 where "mid2 = left + (right - left) div 2"
    define mid3 where "mid3 = right - (right - left) div 4"
    from True have bounds: "left < mid1" "mid1 < mid2" "mid2 < mid3" "mid3 < right"
      unfolding mid1_def mid2_def mid3_def by simp_all
    note step = unrolled_unfold [OF True less.prems(1,2), of t k,
        folded mid1_def mid2_def mid3_def]
    have IH: "\<exists>p. unrolled_loop seq t k l u = Inr p \<and> l \<le> p \<and> p \<le> max l u"
      if "left \<le> l" "u \<le> right" "u - l < right - left" "l \<le> u" for l u
      by (rule less.hyps) (use that less.prems in simp_all)
    have sub: "\<exists>p. unrolled_loop seq t k l u = Inr p \<and> left \<le> p \<and> p \<le> max left right"
      if "left \<le> l" "u \<le> right" "u - l < right - left" "l \<le> u" for l u
      using IH [OF that] that by fastforce
    have 1: "\<exists>p. unrolled_loop seq t k left mid1 = Inr p \<and> left \<le> p \<and> p \<le> max left right"
      by (rule sub) (use bounds in simp_all)
    have 2: "\<exists>p. unrolled_loop seq t k (mid1 + 1) mid2 = Inr p \<and> left \<le> p \<and> p \<le> max left right"
      by (rule sub) (use bounds in simp_all)
    have 3: "\<exists>p. unrolled_loop seq t k (mid2 + 1) mid3 = Inr p \<and> left \<le> p \<and> p \<le> max left right"
      by (rule sub) (use bounds in simp_all)
    have 4: "\<exists>p. unrolled_loop seq t k (mid3 + 1) right = Inr p \<and> left \<le> p \<and> p \<le> max left right"
      by (rule sub) (use bounds in simp_all)
    from 1 2 3 4 show ?thesis unfolding step by simp
  qed
qed

lemma branchless_agree:
  assumes "agree_between seq seq' left right" "0 \<le> left"
  shows "branchless_loop seq' t k left right = branchless_loop seq t k left right"
  using assms
proof (induction "nat (right - left)" arbitrary: left right rule: less_induct)
  case less
  show ?case
  proof (cases "left < right")
    case False
    then show ?thesis by (simp add: branchless_done)
  next
    case True
    define mid where "mid = left + (right - left) div 2"
    from True have bounds: "left \<le> mid" "mid < right" unfolding mid_def by simp_all
    have at: "seq_at seq' mid = seq_at seq mid"
      using less.prems(1) bounds by (rule agree_between_at)
    have l: "branchless_loop seq' t k left mid = branchless_loop seq t k left mid"
      by (rule less.hyps)
         (use bounds less.prems in \<open>simp_all add: agree_between_sub [OF less.prems(1)]\<close>)
    have r: "branchless_loop seq' t k (mid + 1) right = branchless_loop seq t k (mid + 1) right"
      by (rule less.hyps)
         (use bounds less.prems in \<open>simp_all add: agree_between_sub [OF less.prems(1)]\<close>)
    show ?thesis
    proof (cases "seq_at seq mid")
      case None
      with at True show ?thesis by (simp add: branchless_fault mid_def)
    next
      case (Some c)
      with at have "seq_at seq' mid = Some c" by simp
      from branchless_step [OF True this [unfolded mid_def], of t k]
           branchless_step [OF True Some [unfolded mid_def], of t k] l r
      show ?thesis by (simp add: mid_def)
    qed
  qed
qed

lemma unrolled_agree:
  assumes "agree_between seq seq' left right" "0 \<le> left"
  shows "unrolled_loop seq' t k left right = unrolled_loop seq t k left right"
  using assms
proof (induction "nat (right - left)" arbitrary: left right rule: less_induct)
  case less
  show ?case
  proof (cases "right - left > 4")
    case False
    show ?thesis
    proof (cases "right - left < - (2 ^ 63)")
      case True
      then show ?thesis by (simp add: unrolled_overflow)
    next
      case no: False
      with False show ?thesis
        using branchless_agree [OF less.prems, of t k] by (simp add: unrolled_done)
    qed
  next
    case True
    define mid1 where "mid1 = left + (right - left) div 4"
    define mid2 where "mid2 = left + (right - left) div 2"
    define mid3 where "mid3 = right - (right - left) div 4"
    from True have bounds: "left < mid1" "mid1 < mid2" "mid2 < mid3" "mid3 < right"
      unfolding mid1_def mid2_def mid3_def by simp_all
    have at: "seq_at seq' mid1 = seq_at seq mid1" "seq_at seq' mid2 = seq_at seq mid2"
      "seq_at seq' mid3 = seq_at seq mid3"
      by (rule agree_between_at [OF less.prems(1)]; use bounds in simp)+
    have IH: "unrolled_loop seq' t k l u = unrolled_loop seq t k l u"
      if "left \<le> l" "u \<le> right" "u - l < right - left" "l \<le> u" for l u
      by (rule less.hyps)
         (use that less.prems in \<open>simp_all add: agree_between_sub [OF less.prems(1)]\<close>)
    have rec: "unrolled_loop seq' t k left mid1 = unrolled_loop seq t k left mid1"
      "unrolled_loop seq' t k (mid1 + 1) mid2 = unrolled_loop seq t k (mid1 + 1) mid2"
      "unrolled_loop seq' t k (mid2 + 1) mid3 = unrolled_loop seq t k (mid2 + 1) mid3"
      "unrolled_loop seq' t k (mid3 + 1) right = unrolled_loop seq t k (mid3 + 1) right"
      by (rule IH; use bounds in simp)+
    have four: "(2::int) ^ 2 = 4" by simp
    from True have no_overflow: "(right - left < - (2 ^ 63)) = False" by simp
    show ?thesis
      apply (subst unrolled_loop.simps [of seq'])
      apply (subst unrolled_loop.simps [of seq])
      apply (simp only: Let_def drop_bit_eq_div power_one_right four
               mid1_def [symmetric] mid2_def [symmetric] mid3_def [symmetric] at rec True if_True
               no_overflow if_False)
      done
  qed
qed

lemma prefetch_agree:
  assumes "agree_between seq seq' left right" "0 \<le> left"
  shows "prefetch_loop e seq' t k left right = prefetch_loop e seq t k left right"
  using assms
proof (induction "nat (right - left)" arbitrary: left right rule: less_induct)
  case less
  show ?case
  proof (cases "left < right")
    case False
    then show ?thesis
      by (subst prefetch_loop.simps [of e seq'], subst prefetch_loop.simps [of e seq]) simp
  next
    case True
    define mid where "mid = left + (right - left) div 2"
    from True have bounds: "left \<le> mid" "mid < right" unfolding mid_def by simp_all
    have at: "seq_at seq' mid = seq_at seq mid"
      using less.prems(1) bounds by (rule agree_between_at)
    have pre: "seq_at seq' (mid - (mid - left) div 2) = seq_at seq (mid - (mid - left) div 2)"
      "seq_at seq' (mid + (right - mid) div 2) = seq_at seq (mid + (right - mid) div 2)"
      by (rule agree_between_at [OF less.prems(1)]; use bounds in simp)+
    have rec: "prefetch_loop e seq' t k left mid = prefetch_loop e seq t k left mid"
      "prefetch_loop e seq' t k (mid + 1) right = prefetch_loop e seq t k (mid + 1) right"
      by (rule less.hyps;
          use bounds less.prems in \<open>simp add: agree_between_sub [OF less.prems(1)]\<close>)+
    show ?thesis
      by (simp only: prefetch_unfold [OF True] mid_def [symmetric] at pre rec)
  qed
qed

section \<open>The four functions\<close>

lemma effective_upper_simps [simp]:
  "effective_upper seq None = int (length seq)" "effective_upper seq (Some u) = u"
  by (simp_all add: effective_upper_def)

lemma original_eq_v2:
  assumes "int (length seq) \<le> 2 ^ 52" "effective_upper seq upper \<le> int (length seq)"
  shows "bisect_right_original seq t k es lower upper
           = Some (bisect_right_optimized_v2 seq t k es lower upper)"
proof (cases lower)
  case None
  then show ?thesis by (simp add: bisect_right_original_def bisect_right_optimized_v2_def)
next
  case (Some lo)
  show ?thesis
  proof (cases "lo < 0")
    case True
    with Some show ?thesis
      by (simp add: bisect_right_original_def bisect_right_optimized_v2_def)
  next
    case False
    then have "original_loop seq t k lo (effective_upper seq upper)
                 = Some (branchless_loop seq t k lo (effective_upper seq upper))"
      using assms by (intro original_is_branchless) simp_all
    with Some False show ?thesis
      by (simp add: bisect_right_original_def bisect_right_optimized_v2_def
            effective_upper_def Let_def split: sum.splits)
  qed
qed

lemma v4_eq_v2:
  assumes "effective_upper seq upper \<le> int (length seq)"
  shows "bisect_right_optimized_v4 e seq t k es lower upper
           = bisect_right_optimized_v2 seq t k es lower upper"
proof (cases lower)
  case None
  then show ?thesis by (simp add: bisect_right_optimized_v4_def bisect_right_optimized_v2_def)
next
  case (Some lo)
  show ?thesis
  proof (cases "lo < 0")
    case True
    with Some show ?thesis
      by (simp add: bisect_right_optimized_v4_def bisect_right_optimized_v2_def)
  next
    case False
    then have "prefetch_loop e seq t k lo (effective_upper seq upper)
                 = branchless_loop seq t k lo (effective_upper seq upper)"
      using assms by (intro prefetch_is_branchless) simp_all
    with Some False show ?thesis
      by (simp add: bisect_right_optimized_v4_def bisect_right_optimized_v2_def
            effective_upper_def Let_def)
  qed
qed

lemma v3_eq_v2:
  assumes "effective_upper seq upper \<le> int (length seq)"
    and "key_sorted k seq lower (effective_upper seq upper)"
    and "- (2 ^ 63) \<le> effective_upper seq upper - lower"
  shows "bisect_right_optimized_v3 seq t k es (Some lower) upper
           = bisect_right_optimized_v2 seq t k es (Some lower) upper"
proof (cases "lower < 0")
  case True
  then show ?thesis
    by (simp add: bisect_right_optimized_v3_def bisect_right_optimized_v2_def)
next
  case False
  then have "unrolled_loop seq t k lower (effective_upper seq upper)
               = branchless_loop seq t k lower (effective_upper seq upper)"
    using assms by (intro unrolled_eq_branchless) simp_all
  with False show ?thesis
    by (simp add: bisect_right_optimized_v3_def bisect_right_optimized_v2_def
          effective_upper_def Let_def)
qed

lemma v2_loop_form:
  "0 \<le> lower \<Longrightarrow>
     bisect_right_optimized_v2 seq t k es (Some lower) upper =
       (case branchless_loop seq t k lower (effective_upper seq upper) of
          Inl f \<Rightarrow> Inl f | Inr i \<Rightarrow> Inr (i, es))"
  by (simp add: bisect_right_optimized_v2_def effective_upper_def Let_def)

lemma v3_loop_form:
  "0 \<le> lower \<Longrightarrow>
     bisect_right_optimized_v3 seq t k es (Some lower) upper =
       (case unrolled_loop seq t k lower (effective_upper seq upper) of
          Inl f \<Rightarrow> Inl f | Inr i \<Rightarrow> Inr (i, es))"
  by (simp add: bisect_right_optimized_v3_def effective_upper_def Let_def)

lemma v4_loop_form:
  "0 \<le> lower \<Longrightarrow>
     bisect_right_optimized_v4 e seq t k es (Some lower) upper =
       (case prefetch_loop e seq t k lower (effective_upper seq upper) of
          Inl f \<Rightarrow> Inl f | Inr i \<Rightarrow> Inr (i, es))"
  by (simp add: bisect_right_optimized_v4_def effective_upper_def Let_def)

lemma original_loop_form:
  "0 \<le> lower \<Longrightarrow>
     bisect_right_original seq t k es (Some lower) upper =
       (case original_loop seq t k lower (effective_upper seq upper) of
          None \<Rightarrow> None | Some (Inl f) \<Rightarrow> Some (Inl f) | Some (Inr i) \<Rightarrow> Some (Inr (i, es)))"
  by (simp add: bisect_right_original_def effective_upper_def Let_def)

lemma original_eq_v2_any_upper:
  assumes "int (length seq) \<le> 2 ^ 52"
  shows "bisect_right_original seq t k es lower upper
           = Some (bisect_right_optimized_v2 seq t k es lower upper)"
proof (cases lower)
  case None
  then show ?thesis by (simp add: bisect_right_original_def bisect_right_optimized_v2_def)
next
  case (Some lo)
  show ?thesis
  proof (cases "lo < 0")
    case True
    with Some show ?thesis
      by (simp add: bisect_right_original_def bisect_right_optimized_v2_def)
  next
    case False
    then have "original_loop seq t k lo (effective_upper seq upper)
                 = Some (branchless_loop seq t k lo (effective_upper seq upper))"
      using assms by (intro original_is_branchless_any_upper) simp_all
    with Some False show ?thesis
      by (simp add: original_loop_form v2_loop_form split: sum.splits)
  qed
qed

lemma v2_returns:
  assumes "0 \<le> lower" "effective_upper seq upper \<le> int (length seq)"
  shows "\<exists>i. bisect_right_optimized_v2 seq t k es (Some lower) upper = Inr (i, es)
             \<and> lower \<le> i \<and> i \<le> max lower (effective_upper seq upper)"
  using branchless_returns [OF assms, of t k] assms(1) by (auto simp: v2_loop_form)

lemma v3_returns:
  assumes "0 \<le> lower" "effective_upper seq upper \<le> int (length seq)"
    and "- (2 ^ 63) \<le> effective_upper seq upper - lower"
  shows "\<exists>i. bisect_right_optimized_v3 seq t k es (Some lower) upper = Inr (i, es)
             \<and> lower \<le> i \<and> i \<le> max lower (effective_upper seq upper)"
  using unrolled_returns [OF assms, of t k] assms(1) by (auto simp: v3_loop_form)

lemma v4_returns:
  assumes "0 \<le> lower" "effective_upper seq upper \<le> int (length seq)"
  shows "\<exists>i. bisect_right_optimized_v4 e seq t k es (Some lower) upper = Inr (i, es)
             \<and> lower \<le> i \<and> i \<le> max lower (effective_upper seq upper)"
  using v2_returns [OF assms, of t k es] by (simp add: v4_eq_v2 [OF assms(2)])

lemma original_returns:
  assumes "0 \<le> lower" "effective_upper seq upper \<le> int (length seq)"
    and "int (length seq) \<le> 2 ^ 52"
  shows "\<exists>i. bisect_right_original seq t k es (Some lower) upper = Some (Inr (i, es))
             \<and> lower \<le> i \<and> i \<le> max lower (effective_upper seq upper)"
  using v2_returns [OF assms(1,2), of t k es] by (simp add: original_eq_v2 [OF assms(3,2)])

lemma handle_untouched:
  assumes "0 \<le> lower"
  shows "bisect_right_original seq t k es (Some lower) upper = Some (Inr (i, es')) \<Longrightarrow> es' = es"
    and "bisect_right_optimized_v2 seq t k es (Some lower) upper = Inr (i, es') \<Longrightarrow> es' = es"
    and "bisect_right_optimized_v3 seq t k es (Some lower) upper = Inr (i, es') \<Longrightarrow> es' = es"
    and "bisect_right_optimized_v4 e seq t k es (Some lower) upper = Inr (i, es') \<Longrightarrow> es' = es"
  using assms
  by (auto simp: original_loop_form v2_loop_form v3_loop_form v4_loop_form
           split: option.splits sum.splits)

lemma negative_lower:
  assumes "lower < 0"
  shows "bisect_right_original seq t k es (Some lower) upper
           = Some (Inr (0, report es INTERNAL_ERROR ''lower_search_bound must be non-negative''))"
    and "bisect_right_optimized_v2 seq t k es (Some lower) upper
           = Inr (0, report es INTERNAL_ERROR ''lower_search_bound must be non-negative'')"
    and "bisect_right_optimized_v3 seq t k es (Some lower) upper
           = Inr (0, report es INTERNAL_ERROR ''lower_search_bound must be non-negative'')"
    and "bisect_right_optimized_v4 e seq t k es (Some lower) upper
           = Inr (0, report es INTERNAL_ERROR ''lower_search_bound must be non-negative'')"
  using assms
  by (simp_all add: bisect_right_original_def bisect_right_optimized_v2_def
        bisect_right_optimized_v3_def bisect_right_optimized_v4_def)

lemma empty_lower:
  "bisect_right_original seq t k es None upper = Some (Inl EmptyOptionalAccess)"
  "bisect_right_optimized_v2 seq t k es None upper = Inl EmptyOptionalAccess"
  "bisect_right_optimized_v3 seq t k es None upper = Inl EmptyOptionalAccess"
  "bisect_right_optimized_v4 e seq t k es None upper = Inl EmptyOptionalAccess"
  by (simp_all add: bisect_right_original_def bisect_right_optimized_v2_def
        bisect_right_optimized_v3_def bisect_right_optimized_v4_def)

lemma agree_between_upper:
  "agree_between seq seq' lower upper \<Longrightarrow> effective_upper seq' u = effective_upper seq u"
  by (cases u) (simp_all add: agree_between_def)

lemma variants_agree_between:
  assumes "agree_between seq seq' lower (effective_upper seq upper)" "0 \<le> lower"
  shows "bisect_right_optimized_v2 seq' t k es (Some lower) upper
           = bisect_right_optimized_v2 seq t k es (Some lower) upper"
    and "bisect_right_optimized_v3 seq' t k es (Some lower) upper
           = bisect_right_optimized_v3 seq t k es (Some lower) upper"
    and "bisect_right_optimized_v4 e seq' t k es (Some lower) upper
           = bisect_right_optimized_v4 e seq t k es (Some lower) upper"
  using assms
  by (simp_all add: v2_loop_form v3_loop_form v4_loop_form agree_between_upper [OF assms(1)]
        branchless_agree unrolled_agree prefetch_agree)

lemma original_agree_between:
  assumes "agree_between seq seq' lower (effective_upper seq upper)" "0 \<le> lower"
    and "effective_upper seq upper \<le> int (length seq)" "int (length seq) \<le> 2 ^ 52"
  shows "bisect_right_original seq' t k es (Some lower) upper
           = bisect_right_original seq t k es (Some lower) upper"
proof -
  from assms(1) have len: "length seq' = length seq" by (simp add: agree_between_def)
  have u: "effective_upper seq' upper = effective_upper seq upper"
    using assms(1) by (rule agree_between_upper)
  have "bisect_right_original seq' t k es (Some lower) upper
          = Some (bisect_right_optimized_v2 seq' t k es (Some lower) upper)"
    by (rule original_eq_v2) (use assms len u in simp_all)
  also have "\<dots> = Some (bisect_right_optimized_v2 seq t k es (Some lower) upper)"
    using variants_agree_between(1) [OF assms(1,2)] by simp
  also have "\<dots> = bisect_right_original seq t k es (Some lower) upper"
    by (rule original_eq_v2 [symmetric]) (use assms in simp_all)
  finally show ?thesis .
qed

section \<open>The claims about bisection\<close>

text \<open>
  Claim C8, for sums that a double holds exactly. For bounds \<open>0 \<le> lower \<le> upper\<close> with
  \<open>lower + upper \<le> 2 ^ 53\<close> the index probed by the reference loop is
  \<open>lower + (upper - lower) div 2\<close>, with floor division; and an iteration of the loop on such
  bounds inside the sequence compares \<open>tgt\<close> with the key of that element by the strict order of
  the time type alone, going left when \<open>tgt\<close> is below the key and right otherwise.
\<close>

theorem reference_midpoint_is_floor_midpoint:
  assumes "0 \<le> lower" "lower \<le> upper" "lower + upper \<le> 2 ^ 53"
  shows "midpoint_original lower upper = lower + (upper - lower) div 2
       \<and> (lower < upper \<and> upper \<le> int (length seq) \<longrightarrow>
            original_loop seq tgt key_func lower upper =
              (if tgt < key_func (seq ! nat (lower + (upper - lower) div 2))
               then original_loop seq tgt key_func lower (lower + (upper - lower) div 2)
               else original_loop seq tgt key_func (lower + (upper - lower) div 2 + 1) upper))"
proof (intro conjI impI)
  show m: "midpoint_original lower upper = lower + (upper - lower) div 2"
    using assms by (rule midpoint_original_exact)
  assume b: "lower < upper \<and> upper \<le> int (length seq)"
  with assms(1) have "seq_at seq (lower + (upper - lower) div 2)
                        = Some (seq ! nat (lower + (upper - lower) div 2))"
    by (auto simp: seq_at_def)
  with b m show "original_loop seq tgt key_func lower upper =
      (if tgt < key_func (seq ! nat (lower + (upper - lower) div 2))
       then original_loop seq tgt key_func lower (lower + (upper - lower) div 2)
       else original_loop seq tgt key_func (lower + (upper - lower) div 2 + 1) upper)"
    by (subst original_loop.simps) simp
qed

theorem reference_midpoint_is_floor_midpoint_witness:
  "midpoint_original 2 7 = 4
   \<and> original_loop [1, 2, 3, 4, 5, 6, 7 :: int] (3 :: int) id 2 7
       = original_loop [1, 2, 3, 4, 5, 6, 7 :: int] (3 :: int) id 2 4"
proof -
  have h: "(0::int) \<le> 2" "(2::int) \<le> 7" "(2::int) + 7 \<le> 2 ^ 53" by simp_all
  from reference_midpoint_is_floor_midpoint [OF h, of "[1, 2, 3, 4, 5, 6, 7 :: int]" "3 :: int" id]
  show ?thesis by simp
qed

text \<open>
  Claim C8 as it is stated, for all bounds with \<open>0 \<le> lower \<le> upper\<close>, fails beyond the
  precision of a double: for \<open>lower = 2 ^ 53 + 1\<close> and \<open>upper = 2 ^ 53 + 2\<close> the sum
  \<open>2 ^ 54 + 3\<close> is rounded to \<open>2 ^ 54 + 4\<close>, and the reference loop probes \<open>upper\<close> itself,
  not \<open>lower + (upper - lower) div 2 = 2 ^ 53 + 1\<close>.
\<close>

theorem reference_midpoint_large_bounds_counterexample:
  "(0::int) \<le> 2 ^ 53 + 1 \<and> (2 ^ 53 + 1 :: int) \<le> 2 ^ 53 + 2
   \<and> midpoint_original (2 ^ 53 + 1) (2 ^ 53 + 2) = 2 ^ 53 + 2
   \<and> (2 ^ 53 + 1) + ((2 ^ 53 + 2) - (2 ^ 53 + 1)) div 2 = (2 ^ 53 + 1 :: int)"
  by (simp add: midpoint_original_def round_to_double_def Let_def bit_width_numeral)

text \<open>
  Claim C1, amended. For every sequence of at most \<open>2 ^ 52\<close> elements, every target, key
  function and error handle and all bounds (negative lower bounds included),
  \<^verbatim>\<open>bisect_right_optimized_v2\<close> returns what \<^verbatim>\<open>bisect_right_original\<close> returns; so does
  \<^verbatim>\<open>bisect_right_optimized_v4\<close> when the upper bound does not exceed the length of the
  sequence, and \<^verbatim>\<open>bisect_right_optimized_v3\<close> when moreover the difference
  \<open>upper - lower\<close> is an \<^verbatim>\<open>int64_t\<close> and the key images over \<open>[lower, upper)\<close> are
  non-decreasing. This covers the empty range, \<open>lower = upper\<close>, all keys equal, and targets
  below, above or equal to the keys.
\<close>

theorem optimized_variants_agree_with_reference:
  assumes "int (length seq) \<le> 2 ^ 52"
  shows "bisect_right_original seq tgt key_func error_status (Some lower) upper_search_bound
           = Some (bisect_right_optimized_v2 seq tgt key_func error_status (Some lower)
                     upper_search_bound)
       \<and> (effective_upper seq upper_search_bound \<le> int (length seq) \<longrightarrow>
            bisect_right_original seq tgt key_func error_status (Some lower) upper_search_bound
              = Some (bisect_right_optimized_v4 ELEMENTS_PER_CACHE_LINE seq tgt key_func
                        error_status (Some lower) upper_search_bound))
       \<and> (effective_upper seq upper_search_bound \<le> int (length seq)
            \<and> - (2 ^ 63) \<le> effective_upper seq upper_search_bound - lower
            \<and> key_sorted key_func seq lower (effective_upper seq upper_search_bound) \<longrightarrow>
            bisect_right_original seq tgt key_func error_status (Some lower) upper_search_bound
              = Some (bisect_right_optimized_v3 seq tgt key_func error_status (Some lower)
                        upper_search_bound))"
  using original_eq_v2_any_upper [OF assms, of tgt key_func error_status "Some lower"
      upper_search_bound]
    v4_eq_v2 [of seq upper_search_bound ELEMENTS_PER_CACHE_LINE tgt key_func error_status
      "Some lower"]
    v3_eq_v2 [of seq upper_search_bound key_func lower tgt error_status]
  by simp

theorem optimized_variants_agree_with_reference_witness:
  "bisect_right_original [1, 3, 3, 5, 7, 9 :: int] (3 :: int) id None (Some 0) None
     = Some (Inr (3, None))
   \<and> bisect_right_optimized_v2 [1, 3, 3, 5, 7, 9 :: int] (3 :: int) id None (Some 0) None
     = Inr (3, None)
   \<and> bisect_right_optimized_v4 8 [1, 3, 3, 5, 7, 9 :: int] (3 :: int) id None (Some 0) None
     = Inr (3, None)
   \<and> key_sorted id [1, 3, 3, 5, 7, 9 :: int] 0 6
   \<and> bisect_right_optimized_v3 [1, 3, 3, 5, 7, 9 :: int] (3 :: int) id None (Some 0) None
     = Inr (3, None)"
proof -
  have h: "int (length [1, 3, 3, 5, 7, 9 :: int]) \<le> 2 ^ 52"
    by simp
  have u: "effective_upper [1, 3, 3, 5, 7, 9 :: int] None \<le> int (length [1, 3, 3, 5, 7, 9 :: int])"
    "- (2 ^ 63) \<le> effective_upper [1, 3, 3, 5, 7, 9 :: int] None - 0"
    by simp_all
  have s: "key_sorted id [1, 3, 3, 5, 7, 9 :: int] 0 6"
    by (simp add: key_sorted_def ball_int_range)
  have v2: "bisect_right_optimized_v2 [1, 3, 3, 5, 7, 9 :: int] (3 :: int) id None (Some 0) None
     = Inr (3, None)"
    by (simp add: bisect_right_optimized_v2_def branchless_unfold branchless_done)
  from s have s': "key_sorted id [1, 3, 3, 5, 7, 9 :: int] 0
                     (effective_upper [1, 3, 3, 5, 7, 9 :: int] None)"
    by simp
  note t = optimized_variants_agree_with_reference [OF h, where tgt = "3 :: int"
      and key_func = id and error_status = None and lower = 0 and upper_search_bound = None
      and ELEMENTS_PER_CACHE_LINE = 8]
  from t s' u
  have a: "bisect_right_original [1, 3, 3, 5, 7, 9 :: int] (3 :: int) id None (Some 0) None
       = Some (bisect_right_optimized_v2 [1, 3, 3, 5, 7, 9 :: int] (3 :: int) id None (Some 0) None)"
    and b: "bisect_right_original [1, 3, 3, 5, 7, 9 :: int] (3 :: int) id None (Some 0) None
       = Some (bisect_right_optimized_v4 8 [1, 3, 3, 5, 7, 9 :: int] (3 :: int) id None (Some 0) None)"
    and c: "bisect_right_original [1, 3, 3, 5, 7, 9 :: int] (3 :: int) id None (Some 0) None
       = Some (bisect_right_optimized_v3 [1, 3, 3, 5, 7, 9 :: int] (3 :: int) id None (Some 0) None)"
    by blast+
  from a v2 have o: "bisect_right_original [1, 3, 3, 5, 7, 9 :: int] (3 :: int) id None (Some 0) None
       = Some (Inr (3, None))" by simp
  from b c show ?thesis unfolding o using s v2 by simp
qed

text \<open>
  Claim C1 as it is stated, for every sequence, key function and bounds, fails for the unrolled
  variant. On keys that are not sorted it returns another index: on the keys \<open>5, 5, 0, 5, 5\<close>
  and the target \<open>1\<close> the reference returns \<open>3\<close> and \<^verbatim>\<open>bisect_right_optimized_v3\<close> returns
  \<open>0\<close>. With an upper bound beyond the end it reads outside the vector where the reference
  does not: on eight sorted keys, the target \<open>0\<close> and the upper bound \<open>10\<close> the reference
  returns \<open>0\<close> and the variant reads \<^verbatim>\<open>seq[8]\<close>. With the lower bound \<open>1\<close> and the upper
  bound \<^verbatim>\<open>INT64_MIN\<close> the reference returns \<open>1\<close> and the loop test \<^verbatim>\<open>right - left > 4\<close> of
  the variant overflows.
\<close>

theorem optimized_v3_unsorted_counterexample:
  "bisect_right_original [5, 5, 0, 5, 5 :: int] (1 :: int) id None (Some 0) None
     = Some (Inr (3, None))
   \<and> bisect_right_optimized_v3 [5, 5, 0, 5, 5 :: int] (1 :: int) id None (Some 0) None
     = Inr (0, None)
   \<and> bisect_right_original [1, 2, 3, 4, 5, 6, 7, 8 :: int] (0 :: int) id None (Some 0) (Some 10)
     = Some (Inr (0, None))
   \<and> bisect_right_optimized_v3 [1, 2, 3, 4, 5, 6, 7, 8 :: int] (0 :: int) id None (Some 0)
       (Some 10)
     = Inl VectorOutOfRange
   \<and> bisect_right_original [1, 3, 5 :: int] (3 :: int) id None (Some 1) (Some (- (2 ^ 63)))
     = Some (Inr (1, None))
   \<and> bisect_right_optimized_v3 [1, 3, 5 :: int] (3 :: int) id None (Some 1)
       (Some (- (2 ^ 63)))
     = Inl SignedOverflow"
proof -
  have "bisect_right_original [5, 5, 0, 5, 5 :: int] (1 :: int) id None (Some 0) None
          = Some (bisect_right_optimized_v2 [5, 5, 0, 5, 5 :: int] (1 :: int) id None (Some 0) None)"
    by (rule original_eq_v2) simp_all
  moreover have "bisect_right_optimized_v2 [5, 5, 0, 5, 5 :: int] (1 :: int) id None (Some 0) None
          = Inr (3, None)"
    by (simp add: bisect_right_optimized_v2_def branchless_unfold branchless_done)
  moreover have "bisect_right_optimized_v3 [5, 5, 0, 5, 5 :: int] (1 :: int) id None (Some 0) None
          = Inr (0, None)"
    by (simp add: bisect_right_optimized_v3_def unrolled_unfold unrolled_done
          branchless_unfold branchless_done)
  moreover have "bisect_right_original [1, 2, 3, 4, 5, 6, 7, 8 :: int] (0 :: int) id None (Some 0)
       (Some 10) = Some (Inr (0, None))"
    by (simp add: bisect_right_original_def original_loop.simps midpoint_original_exact
          seq_at_def)
  moreover have "bisect_right_optimized_v3 [1, 2, 3, 4, 5, 6, 7, 8 :: int] (0 :: int) id None
       (Some 0) (Some 10) = Inl VectorOutOfRange"
    by (simp add: bisect_right_optimized_v3_def unrolled_fault seq_at_def)
  moreover have "bisect_right_original [1, 3, 5 :: int] (3 :: int) id None (Some 1)
       (Some (- (2 ^ 63))) = Some (Inr (1, None))"
    by (simp add: bisect_right_original_def original_loop.simps)
  moreover have "bisect_right_optimized_v3 [1, 3, 5 :: int] (3 :: int) id None (Some 1)
       (Some (- (2 ^ 63))) = Inl SignedOverflow"
    by (simp add: bisect_right_optimized_v3_def unrolled_overflow)
  ultimately show ?thesis by simp
qed

text \<open>
  Claim C2. On a sequence whose key images over \<open>[lower, upper)\<close> are non-decreasing, with
  \<open>0 \<le> lower \<le> upper \<le> length\<close>, \<^verbatim>\<open>bisect_right_original\<close> returns, leaving the error
  handle alone, the smallest index \<open>p\<close> of \<open>[lower, upper]\<close> such that every element of the
  range at an index from \<open>p\<close> on has a key above \<open>tgt\<close>; with the default bounds this is the
  number of elements whose key is at most \<open>tgt\<close>. (The sequence has at most \<open>2 ^ 52\<close>
  elements, as every vector in memory has.)
\<close>

theorem bisect_right_original_insertion_point:
  assumes "int (length seq) \<le> 2 ^ 52"
    and "0 \<le> lower" "lower \<le> effective_upper seq upper_search_bound"
    and "effective_upper seq upper_search_bound \<le> int (length seq)"
    and "key_sorted key_func seq lower (effective_upper seq upper_search_bound)"
  shows "\<exists>p. bisect_right_original seq tgt key_func error_status (Some lower) upper_search_bound
               = Some (Inr (p, error_status))
           \<and> spec_bisect_right_index key_func seq tgt lower
                 (effective_upper seq upper_search_bound) p
           \<and> (lower = 0 \<and> effective_upper seq upper_search_bound = int (length seq) \<longrightarrow>
                p = int (length (filter (\<lambda>c. key_func c \<le> tgt) seq)))"
proof -
  from branchless_correct [OF assms(2,3,4,5), of tgt]
  obtain p where p: "branchless_loop seq tgt key_func lower (effective_upper seq upper_search_bound)
                       = Inr p"
    "insertion_point key_func seq tgt lower (effective_upper seq upper_search_bound) p"
    by blast
  from p(1) assms(2)
  have "bisect_right_optimized_v2 seq tgt key_func error_status (Some lower) upper_search_bound
          = Inr (p, error_status)"
    by (simp add: v2_loop_form)
  then have "bisect_right_original seq tgt key_func error_status (Some lower) upper_search_bound
               = Some (Inr (p, error_status))"
    by (simp add: original_eq_v2 [OF assms(1,4)])
  moreover from p(2) have "spec_bisect_right_index key_func seq tgt lower
                            (effective_upper seq upper_search_bound) p"
    by (rule insertion_point_is_spec_index)
  moreover have "p = int (length (filter (\<lambda>c. key_func c \<le> tgt) seq))"
    if "lower = 0 \<and> effective_upper seq upper_search_bound = int (length seq)"
    using p(2) that by (intro insertion_point_count) simp
  ultimately show ?thesis by blast
qed

theorem bisect_right_original_insertion_point_witness:
  "bisect_right_original [1, 3, 3, 5, 7, 9 :: int] (3 :: int) id None (Some 0) None
     = Some (Inr (3, None))
   \<and> spec_bisect_right_index id [1, 3, 3, 5, 7, 9 :: int] (3 :: int) 0 6 3
   \<and> int (length (filter (\<lambda>c. id c \<le> (3 :: int)) [1, 3, 3, 5, 7, 9 :: int])) = 3"
proof -
  let ?seq = "[1, 3, 3, 5, 7, 9 :: int]"
  have h: "int (length ?seq) \<le> 2 ^ 52" "(0::int) \<le> 0" "0 \<le> effective_upper ?seq None"
    "effective_upper ?seq None \<le> int (length ?seq)"
    by simp_all
  have s: "key_sorted id ?seq 0 (effective_upper ?seq None)"
    by (simp add: key_sorted_def ball_int_range)
  from bisect_right_original_insertion_point [OF h s, of "3 :: int" None]
  obtain p where p: "bisect_right_original ?seq (3 :: int) id None (Some 0) None = Some (Inr (p, None))"
    "spec_bisect_right_index id ?seq (3 :: int) 0 (effective_upper ?seq None) p"
    "p = int (length (filter (\<lambda>c. id c \<le> (3 :: int)) ?seq))"
    by auto
  from p(3) have "p = 3" by simp
  with p show ?thesis by simp
qed

text \<open>
  Claim C4. With a negative lower bound each of the four functions returns \<open>0\<close>; a supplied
  error handle is overwritten with the outcome \<^verbatim>\<open>INTERNAL_ERROR\<close> (the enumerator the code uses
  for this invalid argument) and the message \<^verbatim>\<open>lower_search_bound must be non-negative\<close>, which
  makes it an error; without a handle nothing is reported. With a lower bound that is not
  negative the handle is left as it was: every result the functions return carries the handle
  unchanged, and for bounds inside the sequence (whose difference is an \<^verbatim>\<open>int64_t\<close>) they do
  return.
\<close>

theorem negative_lower_bound_is_reported:
  "(lower < 0 \<longrightarrow>
      bisect_right_original seq tgt key_func error_status (Some lower) upper_search_bound
        = Some (Inr (0, report error_status INTERNAL_ERROR
                          ''lower_search_bound must be non-negative''))
    \<and> bisect_right_optimized_v2 seq tgt key_func error_status (Some lower) upper_search_bound
        = Inr (0, report error_status INTERNAL_ERROR ''lower_search_bound must be non-negative'')
    \<and> bisect_right_optimized_v3 seq tgt key_func error_status (Some lower) upper_search_bound
        = Inr (0, report error_status INTERNAL_ERROR ''lower_search_bound must be non-negative'')
    \<and> bisect_right_optimized_v4 ELEMENTS_PER_CACHE_LINE seq tgt key_func error_status
          (Some lower) upper_search_bound
        = Inr (0, report error_status INTERNAL_ERROR ''lower_search_bound must be non-negative''))
   \<and> report None INTERNAL_ERROR msg = None
   \<and> report (Some s) INTERNAL_ERROR msg = Some \<lparr>outcome = INTERNAL_ERROR, details = msg\<rparr>
   \<and> is_error (report (Some s) INTERNAL_ERROR msg)
   \<and> (0 \<le> lower \<and> effective_upper seq upper_search_bound \<le> int (length seq)
        \<and> int (length seq) \<le> 2 ^ 52
        \<and> - (2 ^ 63) \<le> effective_upper seq upper_search_bound - lower \<longrightarrow>
        (\<exists>i. bisect_right_original seq tgt key_func error_status (Some lower) upper_search_bound
                = Some (Inr (i, error_status)))
      \<and> (\<exists>i. bisect_right_optimized_v2 seq tgt key_func error_status (Some lower)
                upper_search_bound = Inr (i, error_status))
      \<and> (\<exists>i. bisect_right_optimized_v3 seq tgt key_func error_status (Some lower)
                upper_search_bound = Inr (i, error_status))
      \<and> (\<exists>i. bisect_right_optimized_v4 ELEMENTS_PER_CACHE_LINE seq tgt key_func error_status
                (Some lower) upper_search_bound = Inr (i, error_status)))
   \<and> (0 \<le> lower \<longrightarrow>
        (\<forall>i e. bisect_right_original seq tgt key_func error_status (Some lower) upper_search_bound
                 = Some (Inr (i, e)) \<longrightarrow> e = error_status)
      \<and> (\<forall>i e. bisect_right_optimized_v2 seq tgt key_func error_status (Some lower)
                 upper_search_bound = Inr (i, e) \<longrightarrow> e = error_status)
      \<and> (\<forall>i e. bisect_right_optimized_v3 seq tgt key_func error_status (Some lower)
                 upper_search_bound = Inr (i, e) \<longrightarrow> e = error_status)
      \<and> (\<forall>i e. bisect_right_optimized_v4 ELEMENTS_PER_CACHE_LINE seq tgt key_func error_status
                 (Some lower) upper_search_bound = Inr (i, e) \<longrightarrow> e = error_status))"
proof -
  have neg: "lower < 0 \<longrightarrow>
      bisect_right_original seq tgt key_func error_status (Some lower) upper_search_bound
        = Some (Inr (0, report error_status INTERNAL_ERROR
                          ''lower_search_bound must be non-negative''))
    \<and> bisect_right_optimized_v2 seq tgt key_func error_status (Some lower) upper_search_bound
        = Inr (0, report error_status INTERNAL_ERROR ''lower_search_bound must be non-negative'')
    \<and> bisect_right_optimized_v3 seq tgt key_func error_status (Some lower) upper_search_bound
        = Inr (0, report error_status INTERNAL_ERROR ''lower_search_bound must be non-negative'')
    \<and> bisect_right_optimized_v4 ELEMENTS_PER_CACHE_LINE seq tgt key_func error_status
          (Some lower) upper_search_bound
        = Inr (0, report error_status INTERNAL_ERROR ''lower_search_bound must be non-negative'')"
    by (simp add: negative_lower)
  have rep: "report None INTERNAL_ERROR msg = None"
    "report (Some s) INTERNAL_ERROR msg = Some \<lparr>outcome = INTERNAL_ERROR, details = msg\<rparr>"
    "is_error (report (Some s) INTERNAL_ERROR msg)"
    by (simp_all add: report_def is_error_def)
  have ret: "0 \<le> lower \<and> effective_upper seq upper_search_bound \<le> int (length seq)
        \<and> int (length seq) \<le> 2 ^ 52
        \<and> - (2 ^ 63) \<le> effective_upper seq upper_search_bound - lower \<longrightarrow>
        (\<exists>i. bisect_right_original seq tgt key_func error_status (Some lower) upper_search_bound
                = Some (Inr (i, error_status)))
      \<and> (\<exists>i. bisect_right_optimized_v2 seq tgt key_func error_status (Some lower)
                upper_search_bound = Inr (i, error_status))
      \<and> (\<exists>i. bisect_right_optimized_v3 seq tgt key_func error_status (Some lower)
                upper_search_bound = Inr (i, error_status))
      \<and> (\<exists>i. bisect_right_optimized_v4 ELEMENTS_PER_CACHE_LINE seq tgt key_func error_status
                (Some lower) upper_search_bound = Inr (i, error_status))"
  proof (intro impI, elim conjE, intro conjI)
    assume h: "0 \<le> lower" "effective_upper seq upper_search_bound \<le> int (length seq)"
      "int (length seq) \<le> 2 ^ 52"
      and d: "- (2 ^ 63) \<le> effective_upper seq upper_search_bound - lower"
    from original_returns [OF h, of tgt key_func error_status]
    show "\<exists>i. bisect_right_original seq tgt key_func error_status (Some lower) upper_search_bound
                = Some (Inr (i, error_status))" by blast
    from v2_returns [OF h(1,2), of tgt key_func error_status]
    show "\<exists>i. bisect_right_optimized_v2 seq tgt key_func error_status (Some lower)
                upper_search_bound = Inr (i, error_status)" by blast
    from v3_returns [OF h(1,2) d, of tgt key_func error_status]
    show "\<exists>i. bisect_right_optimized_v3 seq tgt key_func error_status (Some lower)
                upper_search_bound = Inr (i, error_status)" by blast
    from v4_returns [OF h(1,2), of ELEMENTS_PER_CACHE_LINE tgt key_func error_status]
    show "\<exists>i. bisect_right_optimized_v4 ELEMENTS_PER_CACHE_LINE seq tgt key_func error_status
                (Some lower) upper_search_bound = Inr (i, error_status)" by blast
  qed
  have same: "0 \<le> lower \<longrightarrow>
        (\<forall>i e. bisect_right_original seq tgt key_func error_status (Some lower) upper_search_bound
                 = Some (Inr (i, e)) \<longrightarrow> e = error_status)
      \<and> (\<forall>i e. bisect_right_optimized_v2 seq tgt key_func error_status (Some lower)
                 upper_search_bound = Inr (i, e) \<longrightarrow> e = error_status)
      \<and> (\<forall>i e. bisect_right_optimized_v3 seq tgt key_func error_status (Some lower)
                 upper_search_bound = Inr (i, e) \<longrightarrow> e = error_status)
      \<and> (\<forall>i e. bisect_right_optimized_v4 ELEMENTS_PER_CACHE_LINE seq tgt key_func error_status
                 (Some lower) upper_search_bound = Inr (i, e) \<longrightarrow> e = error_status)"
  proof (intro impI conjI allI)
    fix i e
    assume h: "0 \<le> lower"
    show "e = error_status"
      if "bisect_right_original seq tgt key_func error_status (Some lower) upper_search_bound
                 = Some (Inr (i, e))"
      using h that by (rule handle_untouched(1))
    show "e = error_status"
      if "bisect_right_optimized_v2 seq tgt key_func error_status (Some lower)
                 upper_search_bound = Inr (i, e)"
      using h that by (rule handle_untouched(2))
    show "e = error_status"
      if "bisect_right_optimized_v3 seq tgt key_func error_status (Some lower)
                 upper_search_bound = Inr (i, e)"
      using h that by (rule handle_untouched(3))
    show "e = error_status"
      if "bisect_right_optimized_v4 ELEMENTS_PER_CACHE_LINE seq tgt key_func error_status
                 (Some lower) upper_search_bound = Inr (i, e)"
      using h that by (rule handle_untouched(4))
  qed
  from neg rep ret same show ?thesis by (intro conjI)
qed

theorem negative_lower_bound_is_reported_witness:
  "bisect_right_original [1, 3, 5 :: int] (3 :: int) id (Some \<lparr>outcome = OK, details = ''''\<rparr>)
       (Some (- 1)) None
     = Some (Inr (0, Some \<lparr>outcome = INTERNAL_ERROR,
                            details = ''lower_search_bound must be non-negative''\<rparr>))
   \<and> bisect_right_optimized_v3 [1, 3, 5 :: int] (3 :: int) id None (Some (- 1)) None
     = Inr (0, None)
   \<and> (\<exists>i. bisect_right_optimized_v4 8 [1, 3, 5 :: int] (3 :: int) id
              (Some \<lparr>outcome = OK, details = ''''\<rparr>) (Some 0) None
            = Inr (i, Some \<lparr>outcome = OK, details = ''''\<rparr>))"
proof -
  let ?ok = "\<lparr>outcome = OK, details = ''''\<rparr>"
  note neg = negative_lower_bound_is_reported [of "- 1" "[1, 3, 5 :: int]" "3 :: int" id _ None 8
      "''lower_search_bound must be non-negative''" ?ok]
  note pos = negative_lower_bound_is_reported [of 0 "[1, 3, 5 :: int]" "3 :: int" id "Some ?ok"
      None 8 "''''" ?ok]
  have h: "(- 1 :: int) < 0" "(0::int) \<le> 0"
    "effective_upper [1, 3, 5 :: int] None \<le> int (length [1, 3, 5 :: int])"
    "int (length [1, 3, 5 :: int]) \<le> 2 ^ 52"
    "- (2 ^ 63) \<le> effective_upper [1, 3, 5 :: int] None - 0"
    by simp_all
  from neg [of "Some ?ok"] h(1)
  have a: "bisect_right_original [1, 3, 5 :: int] (3 :: int) id (Some ?ok) (Some (- 1)) None
     = Some (Inr (0, Some \<lparr>outcome = INTERNAL_ERROR,
                            details = ''lower_search_bound must be non-negative''\<rparr>))"
    by (simp add: report_def)
  from neg [of None] h(1)
  have b: "bisect_right_optimized_v3 [1, 3, 5 :: int] (3 :: int) id None (Some (- 1)) None
     = Inr (0, None)"
    by (simp add: report_def)
  from pos h(2,3,4,5)
  have c: "\<exists>i. bisect_right_optimized_v4 8 [1, 3, 5 :: int] (3 :: int) id (Some ?ok) (Some 0) None
            = Inr (i, Some ?ok)"
    by blast
  from a b c show ?thesis by (intro conjI)
qed

text \<open>
  Claim C10, amended for the unrolled variant. Each of the four functions reads
  \<^verbatim>\<open>*lower_search_bound\<close> first, so an empty lower bound is undefined behaviour in all of
  them. With a lower bound that is present and not negative and an effective upper bound
  within the sequence, \<^verbatim>\<open>bisect_right_original\<close>, \<^verbatim>\<open>bisect_right_optimized_v2\<close> and
  \<^verbatim>\<open>bisect_right_optimized_v4\<close> return an index (no access outside the vector, every loop
  ends), and so does \<^verbatim>\<open>bisect_right_optimized_v3\<close> when the difference \<open>upper - lower\<close> is
  an \<^verbatim>\<open>int64_t\<close>, as it is for every upper bound that is not negative; the index lies
  between \<open>lower\<close> and the larger of the two bounds, and the result depends on no element
  outside \<open>[lower, upper)\<close>: a sequence of the same length that agrees on that range gives the
  same result. (The sequence has at most \<open>2 ^ 52\<close> elements, as every vector in memory has.)
\<close>

theorem bisection_is_safe_with_present_in_range_bounds:
  "bisect_right_original seq tgt key_func error_status None upper_search_bound
     = Some (Inl EmptyOptionalAccess)
   \<and> bisect_right_optimized_v2 seq tgt key_func error_status None upper_search_bound
     = Inl EmptyOptionalAccess
   \<and> bisect_right_optimized_v3 seq tgt key_func error_status None upper_search_bound
     = Inl EmptyOptionalAccess
   \<and> bisect_right_optimized_v4 ELEMENTS_PER_CACHE_LINE seq tgt key_func error_status None
       upper_search_bound
     = Inl EmptyOptionalAccess
   \<and> (0 \<le> lower \<and> effective_upper seq upper_search_bound \<le> int (length seq)
        \<and> int (length seq) \<le> 2 ^ 52 \<longrightarrow>
        (\<exists>i. bisect_right_original seq tgt key_func error_status (Some lower) upper_search_bound
                = Some (Inr (i, error_status))
              \<and> lower \<le> i \<and> i \<le> max lower (effective_upper seq upper_search_bound))
      \<and> (\<exists>i. bisect_right_optimized_v2 seq tgt key_func error_status (Some lower)
                upper_search_bound = Inr (i, error_status)
              \<and> lower \<le> i \<and> i \<le> max lower (effective_upper seq upper_search_bound))
      \<and> (- (2 ^ 63) \<le> effective_upper seq upper_search_bound - lower \<longrightarrow>
           (\<exists>i. bisect_right_optimized_v3 seq tgt key_func error_status (Some lower)
                  upper_search_bound = Inr (i, error_status)
                \<and> lower \<le> i \<and> i \<le> max lower (effective_upper seq upper_search_bound)))
      \<and> (\<exists>i. bisect_right_optimized_v4 ELEMENTS_PER_CACHE_LINE seq tgt key_func error_status
                (Some lower) upper_search_bound = Inr (i, error_status)
              \<and> lower \<le> i \<and> i \<le> max lower (effective_upper seq upper_search_bound))
      \<and> (\<forall>seq'. agree_between seq seq' lower (effective_upper seq upper_search_bound) \<longrightarrow>
            bisect_right_original seq' tgt key_func error_status (Some lower) upper_search_bound
              = bisect_right_original seq tgt key_func error_status (Some lower)
                  upper_search_bound
          \<and> bisect_right_optimized_v2 seq' tgt key_func error_status (Some lower)
                upper_search_bound
              = bisect_right_optimized_v2 seq tgt key_func error_status (Some lower)
                  upper_search_bound
          \<and> bisect_right_optimized_v3 seq' tgt key_func error_status (Some lower)
                upper_search_bound
              = bisect_right_optimized_v3 seq tgt key_func error_status (Some lower)
                  upper_search_bound
          \<and> bisect_right_optimized_v4 ELEMENTS_PER_CACHE_LINE seq' tgt key_func error_status
                (Some lower) upper_search_bound
              = bisect_right_optimized_v4 ELEMENTS_PER_CACHE_LINE seq tgt key_func error_status
                  (Some lower) upper_search_bound))"
  (is "?E1 \<and> ?E2 \<and> ?E3 \<and> ?E4 \<and> (?H \<longrightarrow> ?R1 \<and> ?R2 \<and> ?R3 \<and> ?R4 \<and> ?A)")
proof -
  have emp: ?E1 ?E2 ?E3 ?E4
    by (rule empty_lower)+
  have in_range: "?H \<longrightarrow> ?R1 \<and> ?R2 \<and> ?R3 \<and> ?R4 \<and> ?A"
  proof (intro impI, elim conjE)
    assume h: "0 \<le> lower" "effective_upper seq upper_search_bound \<le> int (length seq)"
      "int (length seq) \<le> 2 ^ 52"
    have r: ?R1 ?R2 ?R4
      using original_returns [OF h, of tgt key_func error_status]
        v2_returns [OF h(1,2), of tgt key_func error_status]
        v4_returns [OF h(1,2), of ELEMENTS_PER_CACHE_LINE tgt key_func error_status]
      by blast+
    have r3: ?R3
      using v3_returns [OF h(1,2), of tgt key_func error_status] by blast
    have a: ?A
    proof (intro allI impI)
      fix seq'
      assume a: "agree_between seq seq' lower (effective_upper seq upper_search_bound)"
      show "bisect_right_original seq' tgt key_func error_status (Some lower) upper_search_bound
              = bisect_right_original seq tgt key_func error_status (Some lower)
                  upper_search_bound
          \<and> bisect_right_optimized_v2 seq' tgt key_func error_status (Some lower)
                upper_search_bound
              = bisect_right_optimized_v2 seq tgt key_func error_status (Some lower)
                  upper_search_bound
          \<and> bisect_right_optimized_v3 seq' tgt key_func error_status (Some lower)
                upper_search_bound
              = bisect_right_optimized_v3 seq tgt key_func error_status (Some lower)
                  upper_search_bound
          \<and> bisect_right_optimized_v4 ELEMENTS_PER_CACHE_LINE seq' tgt key_func error_status
                (Some lower) upper_search_bound
              = bisect_right_optimized_v4 ELEMENTS_PER_CACHE_LINE seq tgt key_func error_status
                  (Some lower) upper_search_bound"
        by (simp add: original_agree_between [OF a h] variants_agree_between [OF a h(1)])
    qed
    from r r3 a show "?R1 \<and> ?R2 \<and> ?R3 \<and> ?R4 \<and> ?A" by (intro conjI)
  qed
  from emp in_range show ?thesis by (intro conjI)
qed

theorem bisection_is_safe_with_present_in_range_bounds_witness:
  "bisect_right_original [1, 3, 5 :: int] (3 :: int) id None None (Some 2)
     = Some (Inl EmptyOptionalAccess)
   \<and> (\<exists>i. bisect_right_original [1, 3, 5 :: int] (3 :: int) id None (Some 0) (Some 2)
              = Some (Inr (i, None)) \<and> 0 \<le> i \<and> i \<le> 2)
   \<and> (\<exists>i. bisect_right_optimized_v3 [1, 3, 5 :: int] (3 :: int) id None (Some 0) (Some 2)
              = Inr (i, None) \<and> 0 \<le> i \<and> i \<le> 2)
   \<and> agree_between [1, 3, 5 :: int] [1, 3, 99] 0 2
   \<and> bisect_right_optimized_v4 8 [1, 3, 99 :: int] (3 :: int) id None (Some 0) (Some 2)
       = bisect_right_optimized_v4 8 [1, 3, 5 :: int] (3 :: int) id None (Some 0) (Some 2)"
proof -
  let ?seq = "[1, 3, 5 :: int]"
  note t = bisection_is_safe_with_present_in_range_bounds
      [of ?seq "3 :: int" id None "Some 2" 8 0]
  have h: "0 \<le> (0::int) \<and> effective_upper ?seq (Some 2) \<le> int (length ?seq)
             \<and> int (length ?seq) \<le> 2 ^ 52"
    "- (2 ^ 63) \<le> effective_upper ?seq (Some 2) - 0"
    by simp_all
  have a: "agree_between ?seq [1, 3, 99] 0 (effective_upper ?seq (Some 2))"
    by (simp add: agree_between_def ball_int_range)
  from t have e: "bisect_right_original ?seq (3 :: int) id None None (Some 2)
     = Some (Inl EmptyOptionalAccess)" by blast
  from t h have r1: "\<exists>i. bisect_right_original ?seq (3 :: int) id None (Some 0) (Some 2)
              = Some (Inr (i, None)) \<and> 0 \<le> i \<and> i \<le> max 0 (effective_upper ?seq (Some 2))"
    by blast
  from t h have r3: "\<exists>i. bisect_right_optimized_v3 ?seq (3 :: int) id None (Some 0) (Some 2)
              = Inr (i, None) \<and> 0 \<le> i \<and> i \<le> max 0 (effective_upper ?seq (Some 2))"
    by blast
  from t h a have g: "bisect_right_optimized_v4 8 [1, 3, 99 :: int] (3 :: int) id None (Some 0) (Some 2)
       = bisect_right_optimized_v4 8 ?seq (3 :: int) id None (Some 0) (Some 2)"
    by blast
  from e r1 r3 a g show ?thesis by simp
qed

text \<open>
  Claim C10 as it is stated, with no more than \<open>0 \<le> lower\<close> and \<open>upper \<le> length\<close>, fails for
  the unrolled variant: it evaluates \<^verbatim>\<open>right - left > 4\<close> before anything else, and with the
  lower bound \<open>1\<close> and the upper bound \<^verbatim>\<open>INT64_MIN\<close> this difference is not an \<^verbatim>\<open>int64_t\<close>.
  The branch-free variant, which tests \<^verbatim>\<open>left < right\<close>, returns \<open>1\<close> there.
\<close>

theorem optimized_v3_difference_overflow_counterexample:
  "(0::int) \<le> 1
   \<and> effective_upper [1, 3, 5 :: int] (Some (- (2 ^ 63))) \<le> int (length [1, 3, 5 :: int])
   \<and> int (length [1, 3, 5 :: int]) \<le> 2 ^ 52
   \<and> bisect_right_optimized_v3 [1, 3, 5 :: int] (3 :: int) id None (Some 1) (Some (- (2 ^ 63)))
       = Inl SignedOverflow
   \<and> bisect_right_optimized_v2 [1, 3, 5 :: int] (3 :: int) id None (Some 1) (Some (- (2 ^ 63)))
       = Inr (1, None)"
  by (simp add: bisect_right_optimized_v3_def bisect_right_optimized_v2_def unrolled_overflow
        branchless_done)

section \<open>The tree walk\<close>

lemma loop_Leaf:
  "find_children_loop is_T cir ttr this (Leaf a # rest) out sr es sh =
     find_children_loop is_T cir ttr this rest (out @ own_entry is_T (Leaf a)) sr es sh"
  by (simp add: find_children_loop.simps(2) own_entry_def)

lemma loop_shallow_Cons:
  "find_children_loop is_T cir ttr this (child # rest) out sr es True =
     find_children_loop is_T cir ttr this rest (out @ own_entry is_T child) sr es True"
  by (simp add: find_children_loop.simps(2) own_entry_def)

lemma loop_Composition:
  "find_children_loop is_T cir ttr this (Composition y ds # rest) out sr es False =
     (case range_for_child ttr this (Composition y ds) sr es of
        (sr1, es1) \<Rightarrow>
          if sr \<noteq> None \<and> is_error es1 then (out @ own_entry is_T (Composition y ds), es1)
          else
            (case find_children is_T cir ttr y ds es1 sr1 False of
               (valid_children, es2) \<Rightarrow>
                 if is_error es2 then (out @ own_entry is_T (Composition y ds), es2)
                 else find_children_loop is_T cir ttr this rest
                        (out @ own_entry is_T (Composition y ds) @ valid_children) sr1 es2 False))"
  by (cases "is_T (Composition y ds)")
     (simp_all add: find_children_loop.simps(2) own_entry_def Let_def split: prod.splits)

lemma loop_shallow:
  "find_children_loop is_T cir ttr this cs out sr es True = (out @ filter is_T cs, es)"
  by (induction cs arbitrary: out) (simp_all add: loop_shallow_Cons own_entry_def)

lemma loop_append_out_deep:
  "find_children_loop is_T cir ttr this cs (out @ out') sr es False =
     (out @ fst (find_children_loop is_T cir ttr this cs out' sr es False),
      snd (find_children_loop is_T cir ttr this cs out' sr es False))"
proof (induction cs arbitrary: out' sr es)
  case Nil
  show ?case by simp
next
  case (Cons child rest)
  show ?case
  proof (cases child)
    case (Leaf a)
    show ?thesis unfolding Leaf loop_Leaf using Cons [of "out' @ own_entry is_T (Leaf a)"] by simp
  next
    case (Composition y ds)
    obtain sr1 es1 where e: "range_for_child ttr this (Composition y ds) sr es = (sr1, es1)"
      by (cases "range_for_child ttr this (Composition y ds) sr es")
    obtain valid es2 where f: "find_children is_T cir ttr y ds es1 sr1 False = (valid, es2)"
      by (cases "find_children is_T cir ttr y ds es1 sr1 False")
    show ?thesis
      using Cons [of "out' @ own_entry is_T (Composition y ds) @ valid" sr1 es2]
      by (simp add: Composition loop_Composition e f)
  qed
qed

lemma loop_append_out:
  "find_children_loop is_T cir ttr this cs (out @ out') sr es sh =
     (out @ fst (find_children_loop is_T cir ttr this cs out' sr es sh),
      snd (find_children_loop is_T cir ttr this cs out' sr es sh))"
  by (cases sh) (simp_all add: loop_shallow loop_append_out_deep)

lemma set_slice: "set (slice b cs) \<subseteq> set cs"
proof -
  obtain i j where b: "b = (i, j)" by (cases b)
  have "set (take (j - i) (drop i cs)) \<subseteq> set (drop i cs)" by (rule set_take_subset)
  also have "\<dots> \<subseteq> set cs" by (rule set_drop_subset)
  finally show ?thesis by (simp add: slice_def b)
qed

lemma loop_keep_T:
  assumes "\<And>y ds es sr. Composition y ds \<in> set cs \<Longrightarrow>
             find_children is_T cir ttr y ds es sr False
               = keep_T is_T (find_children (\<lambda>_. True) cir ttr y ds es sr False)"
  shows "find_children_loop is_T cir ttr this cs (filter is_T out) sr es False
           = keep_T is_T (find_children_loop (\<lambda>_. True) cir ttr this cs out sr es False)"
  using assms
proof (induction cs arbitrary: out sr es)
  case Nil
  show ?case by (simp add: keep_T_def)
next
  case (Cons child rest)
  have IH: "find_children_loop is_T cir ttr this rest (filter is_T out') sr' es' False
         = keep_T is_T (find_children_loop (\<lambda>_. True) cir ttr this rest out' sr' es' False)"
    for out' sr' es'
    by (rule Cons.IH) (simp add: Cons.prems)
  show ?case
  proof (cases child)
    case (Leaf a)
    show ?thesis
      using IH [of "out @ [Leaf a]" sr es]
      by (auto simp: Leaf loop_Leaf own_entry_def)
  next
    case (Composition y ds)
    obtain sr1 es1 where e: "range_for_child ttr this (Composition y ds) sr es = (sr1, es1)"
      by (cases "range_for_child ttr this (Composition y ds) sr es")
    obtain valid es2 where
      f: "find_children (\<lambda>_. True) cir ttr y ds es1 sr1 False = (valid, es2)"
      by (cases "find_children (\<lambda>_. True) cir ttr y ds es1 sr1 False")
    have "find_children is_T cir ttr y ds es1 sr1 False
            = keep_T is_T (find_children (\<lambda>_. True) cir ttr y ds es1 sr1 False)"
      by (rule Cons.prems) (simp add: Composition)
    with f have g: "find_children is_T cir ttr y ds es1 sr1 False = (filter is_T valid, es2)"
      by (simp add: keep_T_def)
    show ?thesis
      using IH [of "out @ Composition y ds # valid" sr1 es2]
      by (auto simp: Composition loop_Composition e f g own_entry_def keep_T_def)
  qed
qed

lemma loop_keep_T_shallow:
  "find_children_loop is_T cir ttr this cs (filter is_T out) sr es True
     = keep_T is_T (find_children_loop (\<lambda>_. True) cir ttr this cs out sr es True)"
  by (simp add: loop_shallow keep_T_def)

lemma find_children_keep_T_shallow:
  "find_children is_T cir ttr x cs es sr True
     = keep_T is_T (find_children (\<lambda>_. True) cir ttr x cs es sr True)"
proof (cases sr)
  case None
  then show ?thesis
    using loop_keep_T_shallow [of is_T cir ttr _ cs "[]"] by (simp add: find_children.simps)
next
  case (Some r)
  obtain b es1 where c: "cir (Composition x cs) r es = (b, es1)"
    by (cases "cir (Composition x cs) r es")
  show ?thesis
    using loop_keep_T_shallow [of is_T cir ttr _ "slice b cs" "[]"]
    by (simp add: find_children.simps Some c keep_T_def)
qed

lemma find_children_keep_T_node:
  "c = Composition x cs \<Longrightarrow>
     find_children is_T cir ttr x cs es sr False
       = keep_T is_T (find_children (\<lambda>_. True) cir ttr x cs es sr False)"
proof (induction c arbitrary: x cs es sr)
  case (Leaf a)
  then show ?case by simp
next
  case (Composition x' cs')
  then have eq: "x' = x" "cs' = cs" by simp_all
  have kids: "find_children is_T cir ttr y ds es' sr' False
               = keep_T is_T (find_children (\<lambda>_. True) cir ttr y ds es' sr' False)"
    if "Composition y ds \<in> set cs" for y ds es' sr'
    using Composition.IH [of "Composition y ds" y ds es' sr'] that eq by simp
  have loop: "find_children_loop is_T cir ttr this cs'' [] sr' es' False
               = keep_T is_T (find_children_loop (\<lambda>_. True) cir ttr this cs'' [] sr' es' False)"
    if "set cs'' \<subseteq> set cs" for this cs'' sr' es'
  proof -
    have "find_children_loop is_T cir ttr this cs'' (filter is_T []) sr' es' False
            = keep_T is_T (find_children_loop (\<lambda>_. True) cir ttr this cs'' [] sr' es' False)"
      by (rule loop_keep_T) (use that in \<open>auto intro: kids\<close>)
    then show ?thesis by simp
  qed
  show ?case
  proof (cases sr)
    case None
    then show ?thesis using loop [of cs] by (simp add: find_children.simps)
  next
    case (Some r)
    obtain b es1 where c: "cir (Composition x cs) r es = (b, es1)"
      by (cases "cir (Composition x cs) r es")
    show ?thesis
      using loop [of "slice b cs"] set_slice [of b cs]
      by (simp add: find_children.simps Some c keep_T_def)
  qed
qed

lemma loop_stops_deep:
  assumes "\<not> is_error es"
    and "is_error (snd (find_children_loop is_T cir ttr this pre out sr es False))"
  shows "find_children_loop is_T cir ttr this (pre @ suf) out sr es False
           = find_children_loop is_T cir ttr this pre out sr es False"
  using assms
proof (induction pre arbitrary: out sr es)
  case Nil
  then show ?case by simp
next
  case (Cons child rest)
  show ?case
  proof (cases child)
    case (Leaf a)
    with Cons.prems show ?thesis
      using Cons.IH [of es "out @ own_entry is_T (Leaf a)" sr]
      by (simp add: loop_Leaf)
  next
    case (Composition y ds)
    obtain sr1 es1 where e: "range_for_child ttr this (Composition y ds) sr es = (sr1, es1)"
      by (cases "range_for_child ttr this (Composition y ds) sr es")
    obtain valid es2 where f: "find_children is_T cir ttr y ds es1 sr1 False = (valid, es2)"
      by (cases "find_children is_T cir ttr y ds es1 sr1 False")
    show ?thesis
    proof (cases "(sr \<noteq> None \<and> is_error es1) \<or> is_error es2")
      case True
      then show ?thesis by (auto simp: Composition loop_Composition e f)
    next
      case False
      then have step: "find_children_loop is_T cir ttr this (Composition y ds # tl) out sr es False
          = find_children_loop is_T cir ttr this tl
              (out @ own_entry is_T (Composition y ds) @ valid) sr1 es2 False" for tl
        by (auto simp: loop_Composition e f)
      with Cons.prems(2) have
        "is_error (snd (find_children_loop is_T cir ttr this rest
                           (out @ own_entry is_T (Composition y ds) @ valid) sr1 es2 False))"
        by (simp add: Composition)
      with False have
        "find_children_loop is_T cir ttr this (rest @ suf)
             (out @ own_entry is_T (Composition y ds) @ valid) sr1 es2 False
           = find_children_loop is_T cir ttr this rest
             (out @ own_entry is_T (Composition y ds) @ valid) sr1 es2 False"
        by (intro Cons.IH) simp_all
      then show ?thesis by (simp add: Composition step)
    qed
  qed
qed

lemma range_for_child_None [simp]: "range_for_child ttr this c None es = (None, es)"
  by (simp add: range_for_child_def)

lemma loop_preorder:
  assumes "\<not> is_error es"
    and "\<And>y ds. Composition y ds \<in> set cs \<Longrightarrow>
           find_children is_T cir ttr y ds es None False
             = (concat (map (spec_preorder is_T) ds), es)"
  shows "find_children_loop is_T cir ttr this cs out None es False
           = (out @ concat (map (spec_preorder is_T) cs), es)"
  using assms(2)
proof (induction cs arbitrary: out)
  case Nil
  show ?case by simp
next
  case (Cons child rest)
  have IH: "find_children_loop is_T cir ttr this rest out' None es False
              = (out' @ concat (map (spec_preorder is_T) rest), es)" for out'
    by (rule Cons.IH) (simp add: Cons.prems)
  show ?case
  proof (cases child)
    case (Leaf a)
    show ?thesis by (simp add: Leaf loop_Leaf IH)
  next
    case (Composition y ds)
    have "find_children is_T cir ttr y ds es None False
            = (concat (map (spec_preorder is_T) ds), es)"
      by (rule Cons.prems) (simp add: Composition)
    then show ?thesis
      using assms(1) by (simp add: Composition loop_Composition IH)
  qed
qed

lemma find_children_preorder_node:
  "c = Composition x cs \<Longrightarrow> \<not> is_error es \<Longrightarrow>
     find_children is_T cir ttr x cs es None False = (concat (map (spec_preorder is_T) cs), es)"
proof (induction c arbitrary: x cs)
  case (Leaf a)
  then show ?case by simp
next
  case (Composition x' cs')
  then have eq: "cs' = cs" by simp
  have "find_children_loop is_T cir ttr (Composition x cs) cs [] None es False
          = ([] @ concat (map (spec_preorder is_T) cs), es)"
  proof (rule loop_preorder [OF Composition.prems(2)])
    fix y ds
    assume "Composition y ds \<in> set cs"
    with eq have "Composition y ds \<in> set cs'" by simp
    from Composition.IH [OF this refl Composition.prems(2)]
    show "find_children is_T cir ttr y ds es None False
            = (concat (map (spec_preorder is_T) ds), es)" .
  qed
  then show ?case by (simp add: find_children.simps)
qed

lemma find_children_walk:
  "find_children is_T cir ttr x cs es sr sh =
     (case children_searched cir x cs sr es of
        (kids, es1) \<Rightarrow>
          if sr \<noteq> None \<and> is_error es1 then ([], es1)
          else find_children_loop is_T cir ttr (Composition x cs) kids [] sr es1 sh)"
  by (cases sr) (simp_all add: find_children.simps children_searched_def split: prod.splits)

lemma loop_Cons_deep:
  "find_children_loop is_T cir ttr this (child # rest) out sr es False =
     (case child of
        Leaf a \<Rightarrow>
          (case find_children_loop is_T cir ttr this rest [] sr es False of
             (later, e) \<Rightarrow> (out @ own_entry is_T child @ later, e))
      | Composition y ds \<Rightarrow>
          (case range_for_child ttr this child sr es of
             (sr1, es1) \<Rightarrow>
               if sr \<noteq> None \<and> is_error es1 then (out @ own_entry is_T child, es1)
               else
                 (case find_children is_T cir ttr y ds es1 sr1 False of
                    (subtree, es2) \<Rightarrow>
                      if is_error es2 then (out @ own_entry is_T child, es2)
                      else
                        (case find_children_loop is_T cir ttr this rest [] sr1 es2 False of
                           (later, e) \<Rightarrow> (out @ own_entry is_T child @ subtree @ later, e)))))"
proof (cases child)
  case (Leaf a)
  have "find_children_loop is_T cir ttr this rest ((out @ own_entry is_T (Leaf a)) @ []) sr es False
      = ((out @ own_entry is_T (Leaf a))
           @ fst (find_children_loop is_T cir ttr this rest [] sr es False),
         snd (find_children_loop is_T cir ttr this rest [] sr es False))"
    by (rule loop_append_out)
  then show ?thesis by (simp add: Leaf loop_Leaf split: prod.splits)
next
  case (Composition y ds)
  obtain sr1 es1 where e: "range_for_child ttr this (Composition y ds) sr es = (sr1, es1)"
    by (cases "range_for_child ttr this (Composition y ds) sr es")
  obtain subtree es2 where f: "find_children is_T cir ttr y ds es1 sr1 False = (subtree, es2)"
    by (cases "find_children is_T cir ttr y ds es1 sr1 False")
  obtain later e' where l: "find_children_loop is_T cir ttr this rest [] sr1 es2 False = (later, e')"
    by (cases "find_children_loop is_T cir ttr this rest [] sr1 es2 False")
  have "find_children_loop is_T cir ttr this rest
          ((out @ own_entry is_T (Composition y ds) @ subtree) @ []) sr1 es2 False
      = ((out @ own_entry is_T (Composition y ds) @ subtree)
           @ fst (find_children_loop is_T cir ttr this rest [] sr1 es2 False),
         snd (find_children_loop is_T cir ttr this rest [] sr1 es2 False))"
    by (rule loop_append_out)
  then have acc: "find_children_loop is_T cir ttr this rest
          (out @ own_entry is_T (Composition y ds) @ subtree) sr1 es2 False
      = (out @ own_entry is_T (Composition y ds) @ subtree @ later, e')"
    by (simp add: l)
  show ?thesis
    by (simp add: Composition loop_Composition e f l acc)
qed

lemma loop_leaves:
  "\<not> list_ex is_composition leaves \<Longrightarrow>
     find_children_loop is_T cir ttr this (leaves @ rest) out sr es False
       = find_children_loop is_T cir ttr this rest (out @ filter is_T leaves) sr es False"
proof (induction leaves arbitrary: out)
  case Nil
  show ?case by simp
next
  case (Cons c leaves)
  from Cons.prems obtain a where c: "c = Leaf a"
    by (cases c) (simp_all add: is_composition_def)
  from Cons.prems have "\<not> list_ex is_composition leaves" by simp
  from Cons.IH [OF this, of "out @ own_entry is_T (Leaf a)"]
  show ?case by (simp add: c loop_Leaf own_entry_def)
qed

lemma loop_error_at:
  assumes "\<not> is_error (snd (find_children_loop is_T cir ttr this pre out sr es False))"
    and "is_error (snd (find_children_loop is_T cir ttr this (pre @ [child]) out sr es False))"
  shows "find_children_loop is_T cir ttr this (pre @ child # suf) out sr es False
           = (fst (find_children_loop is_T cir ttr this pre out sr es False) @ own_entry is_T child,
              snd (find_children_loop is_T cir ttr this (pre @ [child]) out sr es False))"
  using assms
proof (induction pre arbitrary: out sr es)
  case Nil
  then have ok: "\<not> is_error es" by simp
  show ?case
  proof (cases child)
    case (Leaf a)
    with Nil show ?thesis by (simp add: loop_Leaf)
  next
    case (Composition y ds)
    obtain sr1 es1 where e: "range_for_child ttr this (Composition y ds) sr es = (sr1, es1)"
      by (cases "range_for_child ttr this (Composition y ds) sr es")
    obtain valid es2 where f: "find_children is_T cir ttr y ds es1 sr1 False = (valid, es2)"
      by (cases "find_children is_T cir ttr y ds es1 sr1 False")
    from Nil.prems(2) show ?thesis
      by (auto simp: Composition loop_Composition e f split: if_splits)
  qed
next
  case (Cons p pre)
  show ?case
  proof (cases p)
    case (Leaf a)
    with Cons.prems show ?thesis
      using Cons.IH [of "out @ own_entry is_T (Leaf a)" sr es] by (simp add: loop_Leaf)
  next
    case (Composition y ds)
    obtain sr1 es1 where e: "range_for_child ttr this (Composition y ds) sr es = (sr1, es1)"
      by (cases "range_for_child ttr this (Composition y ds) sr es")
    obtain valid es2 where f: "find_children is_T cir ttr y ds es1 sr1 False = (valid, es2)"
      by (cases "find_children is_T cir ttr y ds es1 sr1 False")
    from Cons.prems(1) have go: "\<not> (sr \<noteq> None \<and> is_error es1)" "\<not> is_error es2"
      by (auto simp: Composition loop_Composition e f split: if_splits)
    then have step: "find_children_loop is_T cir ttr this (Composition y ds # tl) out sr es False
        = find_children_loop is_T cir ttr this tl
            (out @ own_entry is_T (Composition y ds) @ valid) sr1 es2 False" for tl
      by (auto simp: loop_Composition e f)
    from Cons.prems show ?thesis
      using Cons.IH [of "out @ own_entry is_T (Composition y ds) @ valid" sr1 es2]
      by (simp add: Composition step)
  qed
qed

lemma concat_map_subseq:
  "subseq xs ys \<Longrightarrow> subseq (concat (map f xs)) (concat (map f ys))"
proof (induction rule: list_emb.induct)
  case (list_emb_Nil ys)
  show ?case by simp
next
  case (list_emb_Cons xs ys y)
  then show ?case by (simp add: subseq_drop_many)
next
  case (list_emb_Cons2 x y xs ys)
  then show ?case by (simp add: subseq_append')
qed

lemma subseq_slice: "subseq (slice b cs) cs"
proof -
  obtain i j where b: "b = (i, j)" by (cases b)
  have "subseq (take (j - i) (drop i cs)) (take (j - i) (drop i cs) @ drop (j - i) (drop i cs))"
    by (rule subseq_rev_drop_many) simp
  then have 1: "subseq (take (j - i) (drop i cs)) (drop i cs)"
    by (simp only: append_take_drop_id)
  have "subseq (drop i cs) (take i cs @ drop i cs)"
    by (rule subseq_drop_many) simp
  then have 2: "subseq (drop i cs) cs"
    by (simp only: append_take_drop_id)
  from 1 2 have "subseq (take (j - i) (drop i cs)) cs" by (rule subseq_order.trans)
  then show ?thesis by (simp add: slice_def b)
qed

lemma loop_subseq:
  assumes "\<And>y ds es sr. Composition y ds \<in> set kids \<Longrightarrow>
             subseq (fst (find_children is_T cir ttr y ds es sr False))
               (concat (map (spec_preorder is_T) ds))"
  shows "subseq (fst (find_children_loop is_T cir ttr this kids [] sr es False))
           (concat (map (spec_preorder is_T) kids))"
  using assms
proof (induction kids arbitrary: sr es)
  case Nil
  show ?case by simp
next
  case (Cons child rest)
  have IH: "subseq (fst (find_children_loop is_T cir ttr this rest [] sr' es' False))
              (concat (map (spec_preorder is_T) rest))" for sr' es'
    by (rule Cons.IH) (simp add: Cons.prems)
  show ?case
  proof (cases child)
    case (Leaf a)
    obtain later e where l: "find_children_loop is_T cir ttr this rest [] sr es False = (later, e)"
      by (cases "find_children_loop is_T cir ttr this rest [] sr es False")
    from IH [of sr es] l have "subseq later (concat (map (spec_preorder is_T) rest))" by simp
    then show ?thesis
      unfolding Leaf
      by (simp add: loop_Cons_deep [where child = "Leaf a" and out = "[]"] l subseq_append')
  next
    case (Composition y ds)
    obtain sr1 es1 where e: "range_for_child ttr this (Composition y ds) sr es = (sr1, es1)"
      by (cases "range_for_child ttr this (Composition y ds) sr es")
    obtain subtree es2 where f: "find_children is_T cir ttr y ds es1 sr1 False = (subtree, es2)"
      by (cases "find_children is_T cir ttr y ds es1 sr1 False")
    obtain later e' where l: "find_children_loop is_T cir ttr this rest [] sr1 es2 False = (later, e')"
      by (cases "find_children_loop is_T cir ttr this rest [] sr1 es2 False")
    have "subseq (fst (find_children is_T cir ttr y ds es1 sr1 False))
            (concat (map (spec_preorder is_T) ds))"
      by (rule Cons.prems) (simp add: Composition)
    with f have s: "subseq subtree (concat (map (spec_preorder is_T) ds))" by simp
    from IH [of sr1 es2] l have t: "subseq later (concat (map (spec_preorder is_T) rest))" by simp
    from s t have st: "subseq (subtree @ later)
        (concat (map (spec_preorder is_T) ds) @ concat (map (spec_preorder is_T) rest))"
      by (rule list_emb_append_mono)
    have own: "subseq (own_entry is_T (Composition y ds))
        (own_entry is_T (Composition y ds)
           @ concat (map (spec_preorder is_T) ds) @ concat (map (spec_preorder is_T) rest))"
      by (rule subseq_rev_drop_many) simp
    from st own show ?thesis
      unfolding Composition
      by (simp add: loop_Cons_deep [where child = "Composition y ds" and out = "[]"] e f l
            subseq_append')
  qed
qed

lemma find_children_subseq_node:
  "c = Composition x cs \<Longrightarrow>
     subseq (fst (find_children is_T cir ttr x cs es sr False))
       (concat (map (spec_preorder is_T) cs))"
proof (induction c arbitrary: x cs es sr)
  case (Leaf a)
  then show ?case by simp
next
  case (Composition x' cs')
  then have eq: "cs' = cs" by simp
  have kids: "subseq (fst (find_children is_T cir ttr y ds es' sr' False))
                (concat (map (spec_preorder is_T) ds))"
    if "Composition y ds \<in> set cs" for y ds es' sr'
    using Composition.IH [of "Composition y ds" y ds es' sr'] that eq by simp
  obtain ks es1 where k: "children_searched cir x cs sr es = (ks, es1)"
    by (cases "children_searched cir x cs sr es")
  have sub: "subseq ks cs"
  proof (cases sr)
    case None
    with k show ?thesis by (simp add: children_searched_def)
  next
    case (Some r)
    with k show ?thesis
      by (auto simp: children_searched_def subseq_slice split: prod.splits)
  qed
  have mem: "set ks \<subseteq> set cs"
  proof (cases sr)
    case None
    with k show ?thesis by (simp add: children_searched_def)
  next
    case (Some r)
    with k show ?thesis
      using set_slice [of _ cs] by (auto simp: children_searched_def split: prod.splits)
  qed
  have "subseq (fst (find_children_loop is_T cir ttr (Composition x cs) ks [] sr es1 False))
          (concat (map (spec_preorder is_T) ks))"
    by (rule loop_subseq) (use mem in \<open>auto intro: kids\<close>)
  moreover from sub have "subseq (concat (map (spec_preorder is_T) ks))
      (concat (map (spec_preorder is_T) cs))"
    by (rule concat_map_subseq)
  ultimately have "subseq (fst (find_children_loop is_T cir ttr (Composition x cs) ks [] sr es1 False))
      (concat (map (spec_preorder is_T) cs))"
    by (rule subseq_order.trans)
  then show ?case by (simp add: find_children_walk k)
qed

lemmas example_defs = example_children_def clip_def nested_def example_children_in_range_def
  example_transformed_time_range_def slice_def range_for_child_def is_error_def

lemmas eval_defs = example_defs example_parent_def is_clip_def no_error_def report_def
  failing_children_in_range_def failing_transformed_time_range_def own_entry_def keep_T_def
  children_in_range_failing_in_def

section \<open>The claims about \<^verbatim>\<open>find_children\<close>\<close>

text \<open>
  Claim C5. With \<^verbatim>\<open>shallow_search = true\<close>, \<^verbatim>\<open>find_children\<close> returns exactly the direct
  children that are a \<open>T\<close>, in order: all of them without a search range, those of the slice given
  by \<^verbatim>\<open>children_in_range\<close> with one (and nothing when that call reports an error). Every
  returned element is a direct child; no nested composition is entered.
\<close>

theorem shallow_search_returns_direct_children:
  "find_children is_T cir ttr x cs es sr True =
     (case sr of
        None \<Rightarrow> (filter is_T cs, es)
      | Some r \<Rightarrow>
          (case cir (Composition x cs) r es of
             (bounds, es1) \<Rightarrow>
               if is_error es1 then ([], es1) else (filter is_T (slice bounds cs), es1)))
   \<and> set (fst (find_children is_T cir ttr x cs es sr True)) \<subseteq> {c \<in> set cs. is_T c}"
proof (cases sr)
  case None
  then show ?thesis by (simp add: find_children.simps loop_shallow)
next
  case (Some r)
  obtain b es1 where c: "cir (Composition x cs) r es = (b, es1)"
    by (cases "cir (Composition x cs) r es")
  from set_slice [of b cs] show ?thesis
    by (auto simp: find_children.simps loop_shallow Some c)
qed

theorem shallow_search_returns_direct_children_witness:
  "find_children is_clip example_children_in_range example_transformed_time_range
     example_parent example_children None (Some (0, 15)) True
   = ([clip ''X'' 0 5], None)
   \<and> set [clip ''X'' 0 5] \<subseteq> {c \<in> set example_children. is_clip c}"
  using shallow_search_returns_direct_children [of is_clip example_children_in_range
      example_transformed_time_range example_parent example_children None "Some (0, 15)"]
  by (simp add: eval_defs)

text \<open>
  Claim C6. The result of every deep search, with or without a search range and whatever the
  error handle holds, is a subsequence of the pre-order enumeration of the specification: what
  is returned keeps the order of the siblings, and the matches of a subtree stand after the
  entry of its root and before every entry of a later sibling. Without a search range, and
  with a handle that holds no error, the result is that enumeration. In every case
  \<^verbatim>\<open>find_children\<close> returns what the walk of the searched children returns, started with the
  empty result (and the empty result when the narrowing fails); and the walk of a child list
  yields what had been found before, then the entry of the first child (if it is a \<open>T\<close>), then
  the matches of that child's subtree, then what the later siblings contribute, in this order
  and next to each other; a walk that an error stops ends after the child's own entry.
\<close>

theorem deep_search_keeps_sibling_order:
  "subseq (fst (find_children is_T cir ttr x cs es sr False))
     (concat (map (spec_preorder is_T) cs))
   \<and> (\<not> is_error es \<longrightarrow>
        find_children is_T cir ttr x cs es None False
          = (concat (map (spec_preorder is_T) cs), es))
   \<and> find_children is_T cir ttr x cs es sr False =
       (case children_searched cir x cs sr es of
          (kids, es1) \<Rightarrow>
            if sr \<noteq> None \<and> is_error es1 then ([], es1)
            else find_children_loop is_T cir ttr (Composition x cs) kids [] sr es1 False)
   \<and> find_children_loop is_T cir ttr this (child # rest) out sr' es' False =
       (case child of
          Leaf a \<Rightarrow>
            (case find_children_loop is_T cir ttr this rest [] sr' es' False of
               (later, e) \<Rightarrow> (out @ own_entry is_T child @ later, e))
        | Composition y ds \<Rightarrow>
            (case range_for_child ttr this child sr' es' of
               (sr1, es1) \<Rightarrow>
                 if sr' \<noteq> None \<and> is_error es1 then (out @ own_entry is_T child, es1)
                 else
                   (case find_children is_T cir ttr y ds es1 sr1 False of
                      (subtree, es2) \<Rightarrow>
                        if is_error es2 then (out @ own_entry is_T child, es2)
                        else
                          (case find_children_loop is_T cir ttr this rest [] sr1 es2 False of
                             (later, e) \<Rightarrow>
                               (out @ own_entry is_T child @ subtree @ later, e)))))"
  (is "?A \<and> ?B \<and> ?C \<and> ?D")
proof -
  have a: ?A using refl by (rule find_children_subseq_node)
  have b: ?B
  proof
    assume "\<not> is_error es"
    with refl show "find_children is_T cir ttr x cs es None False
          = (concat (map (spec_preorder is_T) cs), es)"
      by (rule find_children_preorder_node)
  qed
  have c: ?C by (rule find_children_walk)
  have d: ?D by (rule loop_Cons_deep)
  from a b c d show ?thesis by (intro conjI)
qed

theorem deep_search_keeps_sibling_order_witness:
  "find_children (\<lambda>_. True) example_children_in_range example_transformed_time_range
     example_parent example_children (Some no_error) None False
   = ([clip ''X'' 0 5, nested ''A'' 5 5 [clip ''a1'' 0 5], clip ''a1'' 0 5,
       nested ''B'' 10 5 [clip ''b1'' 0 5], clip ''b1'' 0 5], Some no_error)
   \<and> find_children (\<lambda>_. True) example_children_in_range example_transformed_time_range
       example_parent example_children (Some no_error) (Some (0, 10)) False
     = ([clip ''X'' 0 5, nested ''A'' 5 5 [clip ''a1'' 0 5], clip ''a1'' 0 5], Some no_error)
   \<and> subseq [clip ''X'' 0 5, nested ''A'' 5 5 [clip ''a1'' 0 5], clip ''a1'' 0 5]
       [clip ''X'' 0 5, nested ''A'' 5 5 [clip ''a1'' 0 5], clip ''a1'' 0 5,
        nested ''B'' 10 5 [clip ''b1'' 0 5], clip ''b1'' 0 5]"
proof -
  note t = deep_search_keeps_sibling_order [where is_T = "\<lambda>_. True"
      and cir = example_children_in_range and ttr = example_transformed_time_range
      and x = example_parent and cs = example_children and es = "Some no_error"
      and sr = "Some (0, 10)"]
  have h: "\<not> is_error (Some no_error)" by (simp add: eval_defs)
  from t [THEN conjunct2, THEN conjunct1] h
  have a: "find_children (\<lambda>_. True) example_children_in_range example_transformed_time_range
     example_parent example_children (Some no_error) None False
   = ([clip ''X'' 0 5, nested ''A'' 5 5 [clip ''a1'' 0 5], clip ''a1'' 0 5,
       nested ''B'' 10 5 [clip ''b1'' 0 5], clip ''b1'' 0 5], Some no_error)"
    by (simp add: eval_defs)
  from t [THEN conjunct2, THEN conjunct2, THEN conjunct1]
  have b: "find_children (\<lambda>_. True) example_children_in_range example_transformed_time_range
       example_parent example_children (Some no_error) (Some (0, 10)) False
     = ([clip ''X'' 0 5, nested ''A'' 5 5 [clip ''a1'' 0 5], clip ''a1'' 0 5], Some no_error)"
    by (simp add: children_searched_def find_children.simps find_children_loop.simps eval_defs)
  from t [THEN conjunct1]
  have c: "subseq [clip ''X'' 0 5, nested ''A'' 5 5 [clip ''a1'' 0 5], clip ''a1'' 0 5]
       [clip ''X'' 0 5, nested ''A'' 5 5 [clip ''a1'' 0 5], clip ''a1'' 0 5,
        nested ''B'' 10 5 [clip ''b1'' 0 5], clip ''b1'' 0 5]"
    unfolding b by (simp add: eval_defs)
  from a b c show ?thesis by (intro conjI)
qed

text \<open>
  Claim C7. When \<^verbatim>\<open>children_in_range\<close> reports an error, \<^verbatim>\<open>find_children\<close> returns the empty
  result and that error. When the first composition among the searched children is reached
  and the range transformation for it reports an error, or the recursive call into it does,
  \<^verbatim>\<open>find_children\<close> returns the matching children before it and its own entry, with that
  error in the handle, whatever the later siblings are. At any position: when the walk
  reaches a child without an error and an error arises at that child, \<^verbatim>\<open>find_children\<close>
  returns what the walk had accumulated before the child and the child's own entry, with the
  error of the walk up to this child; no later sibling is visited. The last two parts say the
  same of the loop in any state: an error of the transformation, or of the recursive call,
  makes it return at once with what it has accumulated and that error.
\<close>

theorem errors_stop_the_walk:
  "(is_error (snd (cir (Composition x cs) r es)) \<longrightarrow>
      find_children is_T cir ttr x cs es (Some r) sh = ([], snd (cir (Composition x cs) r es)))
   \<and> (children_searched cir x cs (Some r) es = (leaves @ Composition y ds # suf, es_n)
        \<and> \<not> is_error es_n \<and> \<not> list_ex is_composition leaves
        \<and> is_error (snd (ttr (Composition x cs) r (Composition y ds) es_n)) \<longrightarrow>
        find_children is_T cir ttr x cs es (Some r) False
          = (filter is_T leaves @ own_entry is_T (Composition y ds),
             snd (ttr (Composition x cs) r (Composition y ds) es_n)))
   \<and> (children_searched cir x cs sr es = (leaves @ Composition y ds # suf, es_n)
        \<and> \<not> (sr \<noteq> None \<and> is_error es_n) \<and> \<not> list_ex is_composition leaves
        \<and> range_for_child ttr (Composition x cs) (Composition y ds) sr es_n = (sr_c, es_c)
        \<and> \<not> (sr \<noteq> None \<and> is_error es_c)
        \<and> is_error (snd (find_children is_T cir ttr y ds es_c sr_c False)) \<longrightarrow>
        find_children is_T cir ttr x cs es sr False
          = (filter is_T leaves @ own_entry is_T (Composition y ds),
             snd (find_children is_T cir ttr y ds es_c sr_c False)))
   \<and> (children_searched cir x cs sr es = (pre @ child # suf, es_n)
        \<and> \<not> (sr \<noteq> None \<and> is_error es_n)
        \<and> \<not> is_error (snd (find_children_loop is_T cir ttr (Composition x cs) pre [] sr es_n
                               False))
        \<and> is_error (snd (find_children_loop is_T cir ttr (Composition x cs) (pre @ [child]) []
                             sr es_n False)) \<longrightarrow>
        find_children is_T cir ttr x cs es sr False
          = (fst (find_children_loop is_T cir ttr (Composition x cs) pre [] sr es_n False)
               @ own_entry is_T child,
             snd (find_children_loop is_T cir ttr (Composition x cs) (pre @ [child]) [] sr es_n
                    False)))
   \<and> (is_error (snd (ttr this r (Composition y ds) es')) \<longrightarrow>
        find_children_loop is_T cir ttr this (Composition y ds # rest) out (Some r) es' False
          = (out @ own_entry is_T (Composition y ds), snd (ttr this r (Composition y ds) es')))
   \<and> (\<not> (sr' \<noteq> None \<and> is_error (snd (range_for_child ttr this (Composition y ds) sr' es')))
        \<and> is_error (snd (find_children is_T cir ttr y ds
                            (snd (range_for_child ttr this (Composition y ds) sr' es'))
                            (fst (range_for_child ttr this (Composition y ds) sr' es')) False)) \<longrightarrow>
        find_children_loop is_T cir ttr this (Composition y ds # rest) out sr' es' False
          = (out @ own_entry is_T (Composition y ds),
             snd (find_children is_T cir ttr y ds
                    (snd (range_for_child ttr this (Composition y ds) sr' es'))
                    (fst (range_for_child ttr this (Composition y ds) sr' es')) False)))"
  (is "(?H1 \<longrightarrow> ?C1) \<and> (?H2 \<longrightarrow> ?C2) \<and> (?H3 \<longrightarrow> ?C3) \<and> (?H4 \<longrightarrow> ?C4) \<and> (?H5 \<longrightarrow> ?C5)
       \<and> (?H6 \<longrightarrow> ?C6)")
proof -
  have 1: "?H1 \<longrightarrow> ?C1"
    by (cases "cir (Composition x cs) r es") (simp add: find_children.simps)
  have 2: "?H2 \<longrightarrow> ?C2"
  proof
    assume h: ?H2
    then have l: "\<not> list_ex is_composition leaves" by simp
    obtain r' e' where t: "ttr (Composition x cs) r (Composition y ds) es_n = (r', e')"
      by (cases "ttr (Composition x cs) r (Composition y ds) es_n")
    from h t show ?C2
      by (simp add: find_children_walk loop_leaves [OF l] loop_Composition range_for_child_def)
  qed
  have 3: "?H3 \<longrightarrow> ?C3"
  proof
    assume h: ?H3
    then have l: "\<not> list_ex is_composition leaves" by simp
    obtain subtree e' where f: "find_children is_T cir ttr y ds es_c sr_c False = (subtree, e')"
      by (cases "find_children is_T cir ttr y ds es_c sr_c False")
    from h f show ?C3
      by (auto simp: find_children_walk loop_leaves [OF l] loop_Composition)
  qed
  have 4: "?H4 \<longrightarrow> ?C4"
  proof
    assume h: ?H4
    then have
      "find_children_loop is_T cir ttr (Composition x cs) (pre @ child # suf) [] sr es_n False
         = (fst (find_children_loop is_T cir ttr (Composition x cs) pre [] sr es_n False)
              @ own_entry is_T child,
            snd (find_children_loop is_T cir ttr (Composition x cs) (pre @ [child]) [] sr es_n
                   False))"
      by (intro loop_error_at) simp_all
    with h show ?C4 by (auto simp: find_children_walk)
  qed
  have 5: "?H5 \<longrightarrow> ?C5"
    by (cases "ttr this r (Composition y ds) es'")
       (simp add: loop_Composition range_for_child_def)
  have 6: "?H6 \<longrightarrow> ?C6"
  proof
    assume h: ?H6
    obtain sr1' es1' where e: "range_for_child ttr this (Composition y ds) sr' es' = (sr1', es1')"
      by (cases "range_for_child ttr this (Composition y ds) sr' es'")
    obtain subtree e2 where f: "find_children is_T cir ttr y ds es1' sr1' False = (subtree, e2)"
      by (cases "find_children is_T cir ttr y ds es1' sr1' False")
    from h show ?C6 by (auto simp: loop_Composition e f)
  qed
  from 1 2 3 4 5 6 show ?thesis by (intro conjI)
qed

theorem errors_stop_the_walk_witness:
  "find_children (\<lambda>_. True) failing_children_in_range example_transformed_time_range
       example_parent example_children (Some no_error) (Some (5, 10)) False
     = ([], Some \<lparr>outcome = INTERNAL_ERROR, details = ''range of child not available''\<rparr>)
   \<and> find_children (\<lambda>_. True) example_children_in_range failing_transformed_time_range
       example_parent example_children (Some no_error) (Some (0, 15)) False
     = ([clip ''X'' 0 5, nested ''A'' 5 5 [clip ''a1'' 0 5]],
        Some \<lparr>outcome = INTERNAL_ERROR, details = ''item is not in this tree''\<rparr>)
   \<and> find_children (\<lambda>_. True) (children_in_range_failing_in ''A'')
       example_transformed_time_range
       example_parent example_children (Some no_error) (Some (0, 15)) False
     = ([clip ''X'' 0 5, nested ''A'' 5 5 [clip ''a1'' 0 5]],
        Some \<lparr>outcome = INTERNAL_ERROR, details = ''range of child not available''\<rparr>)
   \<and> find_children (\<lambda>_. True) (children_in_range_failing_in ''B'')
       example_transformed_time_range
       example_parent (example_children @ [clip ''Y'' 15 5]) (Some no_error) (Some (0, 20)) False
     = ([clip ''X'' 0 5, nested ''A'' 5 5 [clip ''a1'' 0 5], clip ''a1'' 0 5,
         nested ''B'' 10 5 [clip ''b1'' 0 5]],
        Some \<lparr>outcome = INTERNAL_ERROR, details = ''range of child not available''\<rparr>)
   \<and> find_children_loop (\<lambda>_. True) example_children_in_range failing_transformed_time_range
       (Composition example_parent example_children)
       (nested ''A'' 5 5 [clip ''a1'' 0 5] # [nested ''B'' 10 5 [clip ''b1'' 0 5]])
       [clip ''X'' 0 5] (Some (0, 15)) (Some no_error) False
     = ([clip ''X'' 0 5, nested ''A'' 5 5 [clip ''a1'' 0 5]],
        Some \<lparr>outcome = INTERNAL_ERROR, details = ''item is not in this tree''\<rparr>)
   \<and> find_children_loop (\<lambda>_. True) (children_in_range_failing_in ''A'')
       example_transformed_time_range
       (Composition example_parent example_children)
       (nested ''A'' 5 5 [clip ''a1'' 0 5] # [nested ''B'' 10 5 [clip ''b1'' 0 5]])
       [clip ''X'' 0 5] (Some (0, 15)) (Some no_error) False
     = ([clip ''X'' 0 5, nested ''A'' 5 5 [clip ''a1'' 0 5]],
        Some \<lparr>outcome = INTERNAL_ERROR, details = ''range of child not available''\<rparr>)"
proof -
  let ?A = "\<lparr>label = ''A'', start_in_parent = 5, duration = 5\<rparr>"
  let ?X = "clip ''X'' 0 5"
  let ?B = "nested ''B'' 10 5 [clip ''b1'' 0 5]"
  let ?Y = "clip ''Y'' 15 5"
  let ?P = "Composition example_parent example_children"
  let ?ok = "Some no_error"
  note ev = children_searched_def is_composition_def find_children.simps
    find_children_loop.simps eval_defs
  note t1 = errors_stop_the_walk [where cir = failing_children_in_range
      and x = example_parent and cs = example_children and r = "(5, 10)"
      and es = ?ok and is_T = "\<lambda>_. True" and ttr = example_transformed_time_range
      and sh = False, THEN conjunct1]
  note t2 = errors_stop_the_walk [where cir = example_children_in_range
      and x = example_parent and cs = example_children and r = "(0, 15)"
      and es = ?ok and is_T = "\<lambda>_. True" and ttr = failing_transformed_time_range
      and leaves = "[?X]" and y = ?A and ds = "[clip ''a1'' 0 5]" and suf = "[?B]"
      and es_n = ?ok, THEN conjunct2, THEN conjunct1]
  note t3 = errors_stop_the_walk [where cir = "children_in_range_failing_in ''A''"
      and x = example_parent and cs = example_children and sr = "Some (0, 15)"
      and es = ?ok and is_T = "\<lambda>_. True" and ttr = example_transformed_time_range
      and leaves = "[?X]" and y = ?A and ds = "[clip ''a1'' 0 5]" and suf = "[?B]"
      and es_n = ?ok and sr_c = "Some (- 5, 15)" and es_c = ?ok,
      THEN conjunct2, THEN conjunct2, THEN conjunct1]
  note t4 = errors_stop_the_walk [where cir = "children_in_range_failing_in ''B''"
      and x = example_parent and cs = "example_children @ [?Y]" and sr = "Some (0, 20)"
      and es = ?ok and is_T = "\<lambda>_. True" and ttr = example_transformed_time_range
      and pre = "[?X, nested ''A'' 5 5 [clip ''a1'' 0 5]]" and child = ?B and suf = "[?Y]"
      and es_n = ?ok,
      THEN conjunct2, THEN conjunct2, THEN conjunct2, THEN conjunct1]
  note t5 = errors_stop_the_walk [where cir = example_children_in_range
      and r = "(0, 15)" and es' = ?ok and is_T = "\<lambda>_. True"
      and ttr = failing_transformed_time_range and this = ?P and y = ?A
      and ds = "[clip ''a1'' 0 5]" and rest = "[?B]" and out = "[?X]",
      THEN conjunct2, THEN conjunct2, THEN conjunct2, THEN conjunct2, THEN conjunct1]
  note t6 = errors_stop_the_walk [where cir = "children_in_range_failing_in ''A''"
      and es' = ?ok and is_T = "\<lambda>_. True"
      and ttr = example_transformed_time_range and this = ?P and y = ?A
      and ds = "[clip ''a1'' 0 5]" and rest = "[?B]" and out = "[?X]"
      and sr' = "Some (0, 15)",
      THEN conjunct2, THEN conjunct2, THEN conjunct2, THEN conjunct2, THEN conjunct2]
  have a: "find_children (\<lambda>_. True) failing_children_in_range example_transformed_time_range
       example_parent example_children ?ok (Some (5, 10)) False
     = ([], Some \<lparr>outcome = INTERNAL_ERROR, details = ''range of child not available''\<rparr>)"
    using t1 by (simp add: eval_defs)
  have b: "find_children (\<lambda>_. True) example_children_in_range failing_transformed_time_range
       example_parent example_children ?ok (Some (0, 15)) False
     = ([?X, nested ''A'' 5 5 [clip ''a1'' 0 5]],
        Some \<lparr>outcome = INTERNAL_ERROR, details = ''item is not in this tree''\<rparr>)"
    using t2 by (simp add: children_searched_def is_composition_def eval_defs)
  have c: "find_children (\<lambda>_. True) (children_in_range_failing_in ''A'')
       example_transformed_time_range
       example_parent example_children ?ok (Some (0, 15)) False
     = ([?X, nested ''A'' 5 5 [clip ''a1'' 0 5]],
        Some \<lparr>outcome = INTERNAL_ERROR, details = ''range of child not available''\<rparr>)"
    using t3 by (simp add: ev)
  have d: "find_children (\<lambda>_. True) (children_in_range_failing_in ''B'')
       example_transformed_time_range
       example_parent (example_children @ [?Y]) ?ok (Some (0, 20)) False
     = ([?X, nested ''A'' 5 5 [clip ''a1'' 0 5], clip ''a1'' 0 5, ?B],
        Some \<lparr>outcome = INTERNAL_ERROR, details = ''range of child not available''\<rparr>)"
    using t4 by (simp add: ev)
  have e: "find_children_loop (\<lambda>_. True) example_children_in_range failing_transformed_time_range
       ?P (nested ''A'' 5 5 [clip ''a1'' 0 5] # [?B])
       [?X] (Some (0, 15)) ?ok False
     = ([?X, nested ''A'' 5 5 [clip ''a1'' 0 5]],
        Some \<lparr>outcome = INTERNAL_ERROR, details = ''item is not in this tree''\<rparr>)"
    using t5 by (simp add: eval_defs)
  have f: "find_children_loop (\<lambda>_. True) (children_in_range_failing_in ''A'')
       example_transformed_time_range
       ?P (nested ''A'' 5 5 [clip ''a1'' 0 5] # [?B])
       [?X] (Some (0, 15)) ?ok False
     = ([?X, nested ''A'' 5 5 [clip ''a1'' 0 5]],
        Some \<lparr>outcome = INTERNAL_ERROR, details = ''range of child not available''\<rparr>)"
    using t6 by (simp add: ev)
  from a b c d e f show ?thesis by (intro conjI)
qed

text \<open>
  Claim C9. The type filter only omits: the result for a type \<open>T\<close> is the result of the same
  search for all types with the entries that are not a \<open>T\<close> removed, and the error handle is the
  same in both. Every returned entry is a \<open>T\<close>.
\<close>

theorem type_filter_only_omits:
  "find_children is_T cir ttr x cs es sr sh
     = keep_T is_T (find_children (\<lambda>_. True) cir ttr x cs es sr sh)
   \<and> (\<forall>c\<in>set (fst (find_children is_T cir ttr x cs es sr sh)). is_T c)"
proof -
  have eq: "find_children is_T cir ttr x cs es sr sh
     = keep_T is_T (find_children (\<lambda>_. True) cir ttr x cs es sr sh)"
  proof (cases sh)
    case True
    then show ?thesis using find_children_keep_T_shallow [of is_T cir ttr x cs es sr] by simp
  next
    case False
    then show ?thesis using find_children_keep_T_node [OF refl, of is_T cir ttr x cs es sr] by simp
  qed
  then have "fst (find_children is_T cir ttr x cs es sr sh)
               = filter is_T (fst (find_children (\<lambda>_. True) cir ttr x cs es sr sh))"
    by (simp add: keep_T_def split: prod.splits)
  then have "\<forall>c\<in>set (fst (find_children is_T cir ttr x cs es sr sh)). is_T c"
    by simp
  with eq show ?thesis by (rule conjI)
qed

theorem type_filter_only_omits_witness:
  "find_children is_clip example_children_in_range example_transformed_time_range
     example_parent example_children None None False
   = ([clip ''X'' 0 5, clip ''a1'' 0 5, clip ''b1'' 0 5], None)
   \<and> is_clip (clip ''X'' 0 5) \<and> is_clip (clip ''a1'' 0 5) \<and> is_clip (clip ''b1'' 0 5)"
proof -
  have all: "find_children (\<lambda>_. True) example_children_in_range example_transformed_time_range
     example_parent example_children None None False
   = ([clip ''X'' 0 5, nested ''A'' 5 5 [clip ''a1'' 0 5], clip ''a1'' 0 5,
       nested ''B'' 10 5 [clip ''b1'' 0 5], clip ''b1'' 0 5], None)"
    by (simp add: find_children.simps find_children_loop.simps eval_defs)
  from type_filter_only_omits [of is_clip example_children_in_range
      example_transformed_time_range example_parent example_children None None False]
  show ?thesis unfolding all by (simp add: eval_defs)
qed

text \<open>
  Claim C3 does not hold of the code: the loop assigns the transformed range to the variable
  \<^verbatim>\<open>search_range\<close> itself, so the next child composition receives the range transformed
  for its earlier sibling and transformed again. In the example the search range \<open>[5, 15)\<close>
  becomes \<open>[0, 10)\<close> in \<open>A\<close> and then \<open>[-10, 0)\<close> in \<open>B\<close>, where the range of the claim is
  \<open>[-5, 5)\<close>; the clip \<open>b1\<close>, which lies inside the search range, is not found. It is found
  when the earlier sibling \<open>A\<close> is a clip and not a composition.
\<close>

theorem search_range_is_transformed_cumulatively:
  "range_for_child example_transformed_time_range (Composition example_parent example_children)
       (nested ''A'' 5 5 [clip ''a1'' 0 5]) (Some (5, 10)) None
     = (Some (0, 10), None)
   \<and> range_for_child example_transformed_time_range (Composition example_parent example_children)
       (nested ''B'' 10 5 [clip ''b1'' 0 5]) (Some (0, 10)) None
     = (Some (- 10, 10), None)
   \<and> range_for_child example_transformed_time_range (Composition example_parent example_children)
       (nested ''B'' 10 5 [clip ''b1'' 0 5]) (Some (5, 10)) None
     = (Some (- 5, 10), None)
   \<and> find_children (\<lambda>_. True) example_children_in_range example_transformed_time_range
       example_parent example_children None (Some (5, 10)) False
     = ([nested ''A'' 5 5 [clip ''a1'' 0 5], clip ''a1'' 0 5,
         nested ''B'' 10 5 [clip ''b1'' 0 5]], None)
   \<and> find_children (\<lambda>_. True) example_children_in_range example_transformed_time_range
       example_parent
       [clip ''X'' 0 5, clip ''A'' 5 5, nested ''B'' 10 5 [clip ''b1'' 0 5]]
       None (Some (5, 10)) False
     = ([clip ''A'' 5 5, nested ''B'' 10 5 [clip ''b1'' 0 5], clip ''b1'' 0 5], None)"
  by (simp add: find_children.simps find_children_loop.simps eval_defs)

end
